theory Spec2Isabelle
  imports Complex_Main
begin

section \<open>Event-loop monitor: the async-versus-sync accumulation\<close>

text \<open>
  \<^verbatim>\<open>asyncVsSync\<close> accumulates the loop index into a JavaScript number, once in a
  straight loop and once in chunks run from \<^verbatim>\<open>setImmediate\<close> callbacks. The
  \<^verbatim>\<open>+=\<close> of the number type is the parameter \<open>add\<close>, so that a statement about both
  loops holds for exact addition and for rounding double addition alike.
\<close>

definition chunkSize :: nat where
  "chunkSize = 10000"

text \<open>\<^verbatim>\<open>for (let i = 0; i < iterations; i++) { syncResult += i; }\<close>\<close>

function syncLoop :: "('a \<Rightarrow> nat \<Rightarrow> 'a) \<Rightarrow> nat \<Rightarrow> nat \<Rightarrow> 'a \<Rightarrow> 'a" where
  "syncLoop add iterations i syncResult =
     (if i < iterations then syncLoop add iterations (i + 1) (add syncResult i)
      else syncResult)"
  by pat_completeness auto
termination
  by (relation "measure (\<lambda>(add, iterations, i, syncResult). iterations - i)") auto

text \<open>
  The body of one \<^verbatim>\<open>setImmediate\<close> callback:
  \<^verbatim>\<open>for (let j = i; j < Math.min(i + chunkSize, iterations); j++) { asyncResult += j; }\<close>
  with \<open>bound\<close> the value of the \<^verbatim>\<open>Math.min\<close>.
\<close>

function chunkLoop :: "('a \<Rightarrow> nat \<Rightarrow> 'a) \<Rightarrow> nat \<Rightarrow> nat \<Rightarrow> 'a \<Rightarrow> 'a" where
  "chunkLoop add bound j asyncResult =
     (if j < bound then chunkLoop add bound (j + 1) (add asyncResult j)
      else asyncResult)"
  by pat_completeness auto
termination
  by (relation "measure (\<lambda>(add, bound, j, asyncResult). bound - j)") auto

text \<open>
  \<^verbatim>\<open>for (let i = 0; i < iterations; i += chunkSize) { await ... }\<close>: each awaited
  promise resolves after its chunk has run, so the chunks run one after the other.
\<close>

function asyncLoop :: "('a \<Rightarrow> nat \<Rightarrow> 'a) \<Rightarrow> nat \<Rightarrow> nat \<Rightarrow> 'a \<Rightarrow> 'a" where
  "asyncLoop add iterations i asyncResult =
     (if i < iterations
      then asyncLoop add iterations (i + chunkSize)
             (chunkLoop add (min (i + chunkSize) iterations) i asyncResult)
      else asyncResult)"
  by pat_completeness auto
termination
  by (relation "measure (\<lambda>(add, iterations, i, asyncResult). iterations - i)")
     (auto simp: chunkSize_def)

definition syncResult_of :: "('a \<Rightarrow> nat \<Rightarrow> 'a) \<Rightarrow> 'a \<Rightarrow> nat \<Rightarrow> 'a" where
  "syncResult_of add zero iterations = syncLoop add iterations 0 zero"

definition asyncResult_of :: "('a \<Rightarrow> nat \<Rightarrow> 'a) \<Rightarrow> 'a \<Rightarrow> nat \<Rightarrow> 'a" where
  "asyncResult_of add zero iterations = asyncLoop add iterations 0 zero"

section \<open>Shared-memory parallel processing: index ranges\<close>

text \<open>
  \<^verbatim>\<open>parallelProcessing\<close> gives worker \<open>i\<close> the range from
  \<^verbatim>\<open>i * chunkSize\<close> to \<^verbatim>\<open>i === workerCount - 1 ? bufferSize : (i + 1) * chunkSize\<close>
  where \<^verbatim>\<open>chunkSize = Math.floor(bufferSize / workerCount)\<close>. The source fixes
  \<^verbatim>\<open>workerCount = 4\<close>; here it is a parameter, and \<open>parallelProcessing_ranges\<close>
  is the source's instance.
\<close>

definition worker_range :: "nat \<Rightarrow> nat \<Rightarrow> nat \<Rightarrow> nat \<times> nat" where
  "worker_range bufferSize workerCount i =
     (let chunk = bufferSize div workerCount;
          startIndex = i * chunk;
          endIndex = (if i = workerCount - 1 then bufferSize else (i + 1) * chunk)
      in (startIndex, endIndex))"

definition ranges :: "nat \<Rightarrow> nat \<Rightarrow> (nat \<times> nat) list" where
  "ranges bufferSize workerCount = map (worker_range bufferSize workerCount) [0..<workerCount]"

definition parallelProcessing_ranges :: "nat \<Rightarrow> (nat \<times> nat) list" where
  "parallelProcessing_ranges bufferSize = ranges bufferSize 4"

definition covers :: "nat \<times> nat \<Rightarrow> nat \<Rightarrow> bool" where
  "covers r k = (fst r \<le> k \<and> k < snd r)"

section \<open>Event-loop monitor: lag sampling\<close>

text \<open>
  The class \<^verbatim>\<open>EventLoopMonitor\<close> with the part of the Node event loop it uses. Time is
  a real number of milliseconds (\<^verbatim>\<open>performance.now()\<close>); a callback runs at one
  instant \<open>now\<close> of that clock. The timer table holds what \<^verbatim>\<open>setTimeout\<close>,
  \<^verbatim>\<open>setInterval\<close> and \<^verbatim>\<open>setImmediate\<close> have registered and nobody has cleared;
  the callbacks are named by a datatype. \<open>console\<close> collects the numbers each tick
  prints; \<open>stopped\<close> says that the promise of \<^verbatim>\<open>waitForStop\<close> has resolved and
  \<^verbatim>\<open>startMonitoring\<close> has returned.
\<close>

datatype callback = MonitorTick | AutoStop | NextTickInterval | MicrotaskInterval
  | Immediate | NestedImmediate

record timer =
  due :: real
  callback :: callback
  repeat :: "real option"

record lag_report =
  lag :: real
  avgLag :: real
  minLag :: real
  maxLag :: real
  uptime :: real

record event_loop_monitor =
  monitoring :: bool
  startTime :: real
  lastCheck :: real
  lagHistory :: "real list"
  timers :: "timer list"
  console :: "lag_report list"
  stopped :: bool

definition new_monitor :: event_loop_monitor where
  "new_monitor = \<lparr>monitoring = False, startTime = 0, lastCheck = 0, lagHistory = [],
     timers = [], console = [], stopped = False\<rparr>"

definition setTimeout :: "callback \<Rightarrow> real \<Rightarrow> real \<Rightarrow> event_loop_monitor \<Rightarrow> event_loop_monitor" where
  "setTimeout cb delay now st =
     st\<lparr>timers := timers st @ [\<lparr>due = now + delay, callback = cb, repeat = None\<rparr>]\<rparr>"

definition setInterval :: "callback \<Rightarrow> real \<Rightarrow> real \<Rightarrow> event_loop_monitor \<Rightarrow> event_loop_monitor" where
  "setInterval cb delay now st =
     st\<lparr>timers := timers st @ [\<lparr>due = now + delay, callback = cb, repeat = Some delay\<rparr>]\<rparr>"

definition setImmediate :: "callback \<Rightarrow> real \<Rightarrow> event_loop_monitor \<Rightarrow> event_loop_monitor" where
  "setImmediate cb now st =
     st\<lparr>timers := timers st @ [\<lparr>due = now, callback = cb, repeat = None\<rparr>]\<rparr>"

text \<open>
  \<^verbatim>\<open>Math.max(...xs)\<close> and \<^verbatim>\<open>Math.min(...xs)\<close> on a non-empty array (the history
  has just been pushed to when they are called).
\<close>

definition Math_max :: "real list \<Rightarrow> real" where
  "Math_max xs = fold max (tl xs) (hd xs)"

definition Math_min :: "real list \<Rightarrow> real" where
  "Math_min xs = fold min (tl xs) (hd xs)"

text \<open>
  \<^verbatim>\<open>this.lagHistory.push(actualLag); if (this.lagHistory.length > 100) this.lagHistory.shift();\<close>
\<close>

definition push_shift :: "real list \<Rightarrow> real \<Rightarrow> real list" where
  "push_shift history actualLag =
     (let pushed = history @ [actualLag]
      in if length pushed > 100 then tl pushed else pushed)"

definition monitorEventLoop :: "real \<Rightarrow> event_loop_monitor \<Rightarrow> event_loop_monitor" where
  "monitorEventLoop now st =
     (if \<not> monitoring st then st
      else
        let expectedTime = lastCheck st + 16;
            actualLag = now - expectedTime;
            history = push_shift (lagHistory st) actualLag;
            report = \<lparr>lag = actualLag,
                       avgLag = foldl (+) 0 history / real (length history),
                       minLag = Math_min history,
                       maxLag = Math_max history,
                       uptime = (now - startTime st) / 1000\<rparr>
        in setTimeout MonitorTick 1000 now
             (st\<lparr>lagHistory := history, console := console st @ [report], lastCheck := now\<rparr>))"

text \<open>A sequence of ticks at the given times, and the lags the formula of the tick yields.\<close>

fun ticks :: "real list \<Rightarrow> event_loop_monitor \<Rightarrow> event_loop_monitor" where
  "ticks [] st = st"
| "ticks (now # nows) st = ticks nows (monitorEventLoop now st)"

fun lags_of :: "real \<Rightarrow> real list \<Rightarrow> real list" where
  "lags_of previous [] = []"
| "lags_of previous (now # nows) = (now - (previous + 16)) # lags_of now nows"

text \<open>101 tick times with pairwise different lags.\<close>

definition sample_times :: "real list" where
  "sample_times = map (\<lambda>k. real (1000 * k + k * k)) [1..<102]"

section \<open>Event-loop monitor: a monitoring session\<close>

text \<open>
  \<^verbatim>\<open>startBackgroundTasks\<close>: two \<^verbatim>\<open>setInterval(..., 2000)\<close> whose callbacks only queue an
  empty \<^verbatim>\<open>process.nextTick\<close> or an empty microtask, and a \<^verbatim>\<open>setImmediate\<close> whose
  callback registers a nested, empty \<^verbatim>\<open>setImmediate\<close>. The handles are not kept.
\<close>

definition startBackgroundTasks :: "real \<Rightarrow> event_loop_monitor \<Rightarrow> event_loop_monitor" where
  "startBackgroundTasks now st =
     setInterval MicrotaskInterval 2000 now
       (setImmediate Immediate now
          (setInterval NextTickInterval 2000 now st))"

text \<open>
  \<^verbatim>\<open>waitForStop\<close>: a promise that only the 30000 ms timer resolves (``Don't use SIGINT
  as it interferes with main application readline'').
\<close>

definition waitForStop :: "real \<Rightarrow> event_loop_monitor \<Rightarrow> event_loop_monitor" where
  "waitForStop now st = setTimeout AutoStop 30000 now st"

text \<open>
  \<^verbatim>\<open>startMonitoring\<close> up to its \<^verbatim>\<open>await\<close>: the flag and the two times are set, the
  first tick runs at once, the background tasks start and the stop timer is armed.
\<close>

definition startMonitoring :: "real \<Rightarrow> event_loop_monitor \<Rightarrow> event_loop_monitor" where
  "startMonitoring now st =
     waitForStop now
       (startBackgroundTasks now
          (monitorEventLoop now
             (st\<lparr>monitoring := True, startTime := now, lastCheck := now, stopped := False\<rparr>)))"

text \<open>
  The callbacks. The stop timer's callback, when \<^verbatim>\<open>this.monitoring\<close> holds, clears the
  flag and resolves the promise; the rest of \<^verbatim>\<open>startMonitoring\<close> then runs as a
  microtask (it clears the flag again and returns), before any other callback.
\<close>

fun run_callback :: "callback \<Rightarrow> real \<Rightarrow> event_loop_monitor \<Rightarrow> event_loop_monitor" where
  "run_callback MonitorTick now st = monitorEventLoop now st"
| "run_callback AutoStop now st =
     (if monitoring st then st\<lparr>monitoring := False, stopped := True\<rparr> else st)"
| "run_callback NextTickInterval now st = st"
| "run_callback MicrotaskInterval now st = st"
| "run_callback Immediate now st = setImmediate NestedImmediate now st"
| "run_callback NestedImmediate now st = st"

text \<open>
  The event loop runs the timer at index \<open>i\<close> of the table at time \<open>now\<close>, if it is due:
  a one-shot timer leaves the table, an interval is re-armed one period later; then the
  callback runs. The loop may run a due timer at any later time, never earlier.
\<close>

definition fire :: "nat \<Rightarrow> real \<Rightarrow> event_loop_monitor \<Rightarrow> event_loop_monitor" where
  "fire i now st =
     (if i < length (timers st) \<and> due (timers st ! i) \<le> now then
        (let t = timers st ! i;
             table = (case repeat t of
                        None \<Rightarrow> take i (timers st) @ drop (Suc i) (timers st)
                      | Some period \<Rightarrow> (timers st)[i := t\<lparr>due := now + period\<rparr>])
         in run_callback (callback t) now (st\<lparr>timers := table\<rparr>))
      else st)"

text \<open>
  What happens while \<^verbatim>\<open>startMonitoring\<close> waits: a timer fires, or the user types a
  line. No question of the readline interface is pending during the wait and the class
  registers no listener for input or signals, so a typed line reaches no code of the
  monitor.
\<close>

datatype loop_event = Fire nat real | UserInput string real

fun time_of :: "loop_event \<Rightarrow> real" where
  "time_of (Fire i now) = now"
| "time_of (UserInput line now) = now"

fun loop_step :: "loop_event \<Rightarrow> event_loop_monitor \<Rightarrow> event_loop_monitor" where
  "loop_step (Fire i now) st = fire i now st"
| "loop_step (UserInput line now) st = st"

definition run_loop :: "loop_event list \<Rightarrow> event_loop_monitor \<Rightarrow> event_loop_monitor" where
  "run_loop evs st = fold loop_step evs st"

text \<open>The number of armed timers that would run the monitor's tick.\<close>

definition ticks_pending :: "event_loop_monitor \<Rightarrow> nat" where
  "ticks_pending st = length (filter (\<lambda>t. callback t = MonitorTick) (timers st))"

text \<open>
  What holds throughout a session started at \<open>t0\<close>: the session has ended exactly when
  the flag is cleared; stop timers are one-shot and due at \<open>t0 + 30000\<close>, and one is armed
  while the session runs; at most one tick is armed, as a one-shot timer.
\<close>

definition session_inv :: "real \<Rightarrow> event_loop_monitor \<Rightarrow> bool" where
  "session_inv t0 st =
     ((stopped st \<longleftrightarrow> \<not> monitoring st) \<and>
      list_all (\<lambda>t. callback t = AutoStop \<longrightarrow> due t = t0 + 30000 \<and> repeat t = None) (timers st) \<and>
      (stopped st \<or> list_ex (\<lambda>t. callback t = AutoStop) (timers st)) \<and>
      list_all (\<lambda>t. callback t = MonitorTick \<longrightarrow> repeat t = None) (timers st) \<and>
      ticks_pending st \<le> 1)"

text \<open>
  A session as it runs on an idle machine: the immediates at the start, a tick every
  second, the two intervals every two seconds, the stop timer at 30000, the last armed
  tick, and the intervals again at 32000.
\<close>

definition second_events :: "nat \<Rightarrow> loop_event list" where
  "second_events k =
     (if even k then [Fire 0 (1000 * real k), Fire 1 (1000 * real k), Fire 3 (1000 * real k)]
      else [Fire 3 (1000 * real k)])"

definition sample_session :: "loop_event list" where
  "sample_session =
     [Fire 2 0, Fire 4 0, Fire 0 1000] @ concat (map second_events [2..<30]) @
     [Fire 2 30000, Fire 2 30000, Fire 0 30000, Fire 1 30000, Fire 0 32000, Fire 1 32000]"

text \<open>The start of a session in which the user types \<^verbatim>\<open>stop\<close> and the first tick is late.\<close>

definition early_events :: "loop_event list" where
  "early_events = [Fire 2 0, UserInput ''stop'' 5000, Fire 0 6000]"

section \<open>Worker pool: tasks, workers and the scheduler\<close>

text \<open>
  A task as \<^verbatim>\<open>workerPoolTask\<close> builds it: \<^verbatim>\<open>{ id, complexity, type }\<close>.
\<close>

record task =
  task_id :: nat
  complexity :: int
  task_type :: string

text \<open>
  What a worker sends to the parent: \<^verbatim>\<open>parentPort.postMessage\<close> carries either the
  number the task computed or the object \<^verbatim>\<open>{ error: error.message }\<close>. A worker-level
  \<^verbatim>\<open>'error'\<close> event is the other thing a worker thread can emit.
\<close>

datatype 'v message = Result 'v | ErrorObject string

datatype 'v worker_emit = PostMessage "'v message" | ErrorEvent string

text \<open>
  \<^verbatim>\<open>pool-worker.js\<close>. The numeric loop \<^verbatim>\<open>performCPUIntensiveWork(complexity)\<close> is
  floating point with \<^verbatim>\<open>Math.random()\<close> in it and never throws; its value is the
  parameter \<open>cpu\<close>. \<^verbatim>\<open>processTask\<close> throws \<^verbatim>\<open>Error(`Unknown task type: ${type}`)\<close>
  for any other type: \<open>Inl\<close> is the thrown error's message.
\<close>

definition processTask :: "(int \<Rightarrow> 'v) \<Rightarrow> task \<Rightarrow> string + 'v" where
  "processTask cpu t =
     (if task_type t = ''cpu-intensive'' then Inr (cpu (complexity t))
      else Inl (''Unknown task type: '' @ task_type t))"

text \<open>
  The listener \<^verbatim>\<open>parentPort.on('message', ...)\<close> for a message of type
  \<^verbatim>\<open>'task'\<close>: \<^verbatim>\<open>try { postMessage(await processTask(task)) } catch (error) { postMessage({ error: error.message }) }\<close>.
\<close>

definition pool_worker_on_task :: "(int \<Rightarrow> 'v) \<Rightarrow> task \<Rightarrow> 'v worker_emit" where
  "pool_worker_on_task cpu t =
     (case processTask cpu t of
        Inr result \<Rightarrow> PostMessage (Result result)
      | Inl error_message \<Rightarrow> PostMessage (ErrorObject error_message))"

text \<open>
  An entry of \<^verbatim>\<open>this.workerPool\<close>: \<^verbatim>\<open>{ worker, busy, id }\<close>. Of the thread handle
  \<^verbatim>\<open>worker\<close> the model keeps the task that has been posted to it together with the
  one-shot listener \<^verbatim>\<open>worker.once('message', ...)\<close> whose closure holds that task.
\<close>

record pool_worker =
  busy :: bool
  worker_id :: nat
  listener :: "task option"

datatype 'v outcome = Resolved "'v message option list" | Rejected string

text \<open>
  The variables of one call of \<^verbatim>\<open>processTasksWithPool\<close>: the array \<^verbatim>\<open>results\<close>
  (\<open>None\<close> is an empty slot), the queue \<^verbatim>\<open>pendingTasks\<close>, the pool, the state of the
  returned promise, and the number of armed \<^verbatim>\<open>setTimeout(processNextTask, 10)\<close>.
\<close>

record 'v scheduler =
  results :: "'v message option list"
  pendingTasks :: "task list"
  workerPool :: "pool_worker list"
  settled :: "'v outcome option"
  poll_timers :: nat

text \<open>\<^verbatim>\<open>initializeWorkerPool(size)\<close> on an empty pool.\<close>

definition initializeWorkerPool :: "nat \<Rightarrow> pool_worker list" where
  "initializeWorkerPool pool_size =
     map (\<lambda>i. \<lparr>busy = False, worker_id = i, listener = None\<rparr>) [0..<pool_size]"

text \<open>\<^verbatim>\<open>this.workerPool.find(w => !w.busy)\<close>, as the index of the worker found.\<close>

fun find_idle :: "pool_worker list \<Rightarrow> nat option" where
  "find_idle [] = None"
| "find_idle (w # ws) = (if \<not> busy w then Some 0 else map_option Suc (find_idle ws))"

text \<open>
  \<^verbatim>\<open>results[i] = v\<close> on a JavaScript array: an index beyond the end extends the array
  with empty slots.
\<close>

definition array_set :: "'a option list \<Rightarrow> nat \<Rightarrow> 'a \<Rightarrow> 'a option list" where
  "array_set xs i v =
     (if i < length xs then xs[i := Some v]
      else xs @ replicate (i - length xs) None @ [Some v])"

text \<open>\<^verbatim>\<open>resolve(results)\<close>: only the first settlement of a promise counts.\<close>

definition resolve :: "'v scheduler \<Rightarrow> 'v scheduler" where
  "resolve st =
     (case settled st of
        None \<Rightarrow> st\<lparr>settled := Some (Resolved (results st))\<rparr>
      | Some _ \<Rightarrow> st)"

text \<open>
  The closure \<^verbatim>\<open>processNextTask\<close>, up to the point where it returns: it resolves, or
  arms the 10 ms poll, or dispatches one task to the first idle worker. It dispatches at
  most one task per call, and it is called once at the start, once by every listener and
  once by every poll.
\<close>

definition processNextTask :: "'v scheduler \<Rightarrow> 'v scheduler" where
  "processNextTask st =
     (case pendingTasks st of
        [] \<Rightarrow> resolve st
      | t # rest \<Rightarrow>
          (case find_idle (workerPool st) of
             None \<Rightarrow> st\<lparr>poll_timers := poll_timers st + 1\<rparr>
           | Some i \<Rightarrow>
               st\<lparr>pendingTasks := rest,
                  workerPool := (workerPool st)
                    [i := (workerPool st ! i)\<lparr>busy := True, listener := Some t\<rparr>]\<rparr>))"

text \<open>
  The one-shot listener, before its last statement:
  \<^verbatim>\<open>results[task.id] = result; availableWorker.busy = false;\<close>
\<close>

definition store_result :: "nat \<Rightarrow> task \<Rightarrow> 'v message \<Rightarrow> 'v scheduler \<Rightarrow> 'v scheduler" where
  "store_result i t result st =
     st\<lparr>results := array_set (results st) (task_id t) result,
        workerPool := (workerPool st)[i := (workerPool st ! i)\<lparr>busy := False, listener := None\<rparr>]\<rparr>"

text \<open>
  What can happen after the synchronous part: the worker at index \<open>i\<close> finishes the task
  posted to it and what it emits reaches the parent, or an armed poll timer fires. An
  event that is not enabled leaves the state as it is. There is no listener for a
  worker's \<^verbatim>\<open>'error'\<close> event in \<^verbatim>\<open>processTasksWithPool\<close>.
\<close>

datatype event = Completion nat | Poll

definition step :: "(int \<Rightarrow> 'v) \<Rightarrow> event \<Rightarrow> 'v scheduler \<Rightarrow> 'v scheduler" where
  "step cpu ev st =
     (case ev of
        Completion i \<Rightarrow>
          (if i < length (workerPool st) then
             (case listener (workerPool st ! i) of
                None \<Rightarrow> st
              | Some t \<Rightarrow>
                  (case pool_worker_on_task cpu t of
                     PostMessage result \<Rightarrow> processNextTask (store_result i t result st)
                   | ErrorEvent _ \<Rightarrow> st))
           else st)
      | Poll \<Rightarrow>
          (if 0 < poll_timers st
           then processNextTask (st\<lparr>poll_timers := poll_timers st - 1\<rparr>)
           else st))"

definition run :: "(int \<Rightarrow> 'v) \<Rightarrow> event list \<Rightarrow> 'v scheduler \<Rightarrow> 'v scheduler" where
  "run cpu evs st = fold (step cpu) evs st"

text \<open>
  \<^verbatim>\<open>processTasksWithPool(tasks)\<close> up to the return of the promise:
  \<^verbatim>\<open>results = new Array(tasks.length)\<close>, \<^verbatim>\<open>pendingTasks = [...tasks]\<close>, and the first call
  of \<^verbatim>\<open>processNextTask\<close>.
\<close>

definition processTasksWithPool :: "pool_worker list \<Rightarrow> task list \<Rightarrow> 'v scheduler" where
  "processTasksWithPool pool tasks =
     processNextTask
       \<lparr>results = replicate (length tasks) None, pendingTasks = tasks, workerPool = pool,
        settled = None, poll_timers = 0\<rparr>"

text \<open>The message the worker sends for a task, as stored by the listener.\<close>

definition task_result :: "(int \<Rightarrow> 'v) \<Rightarrow> task \<Rightarrow> 'v message" where
  "task_result cpu t =
     (case processTask cpu t of Inr result \<Rightarrow> Result result | Inl e \<Rightarrow> ErrorObject e)"

text \<open>A batch of three tasks in which the task with id 1 has an unknown type.\<close>

definition failing_batch :: "task list" where
  "failing_batch =
     [\<lparr>task_id = 0, complexity = 1000000, task_type = ''cpu-intensive''\<rparr>,
      \<lparr>task_id = 1, complexity = 1500000, task_type = ''io''\<rparr>,
      \<lparr>task_id = 2, complexity = 2000000, task_type = ''cpu-intensive''\<rparr>]"

text \<open>
  The states the scheduler passes through over a pool of \<open>P\<close> idle workers: after \<open>k\<close>
  completions the results of the first \<open>k\<close> tasks are stored, task \<open>k\<close> is with the
  first worker, and the rest is pending; after the last one the promise is resolved.
\<close>

definition fill :: "(int \<Rightarrow> 'v) \<Rightarrow> nat \<Rightarrow> task list \<Rightarrow> 'v message option list" where
  "fill cpu n completed =
     fold (\<lambda>t rs. array_set rs (task_id t) (task_result cpu t)) completed (replicate n None)"

definition state_after :: "(int \<Rightarrow> 'v) \<Rightarrow> nat \<Rightarrow> task list \<Rightarrow> nat \<Rightarrow> 'v scheduler" where
  "state_after cpu P tasks k =
     \<lparr>results = fill cpu (length tasks) (take k tasks),
      pendingTasks = drop (Suc k) tasks,
      workerPool =
        (if k < length tasks
         then (initializeWorkerPool P)
                [0 := \<lparr>busy = True, worker_id = 0, listener = Some (tasks ! k)\<rparr>]
         else initializeWorkerPool P),
      settled =
        (if k < length tasks then None
         else Some (Resolved (fill cpu (length tasks) tasks))),
      poll_timers = 0\<rparr>"

text \<open>An integer stand-in for the numeric loop, for evaluating examples.\<close>

definition sample_cpu :: "int \<Rightarrow> int" where
  "sample_cpu c = c div 1000"

text \<open>A batch submitted in an order that is not the order of its ids.\<close>

definition permuted_batch :: "task list" where
  "permuted_batch =
     [\<lparr>task_id = 2, complexity = 2000000, task_type = ''cpu-intensive''\<rparr>,
      \<lparr>task_id = 0, complexity = 1000000, task_type = ''cpu-intensive''\<rparr>,
      \<lparr>task_id = 1, complexity = 1500000, task_type = ''cpu-intensive''\<rparr>]"

text \<open>The failing batch after the completion of its first task: task 1 is with worker 0.\<close>

definition before_failure :: "int scheduler" where
  "before_failure =
     step sample_cpu (Completion 0) (processTasksWithPool (initializeWorkerPool 2) failing_batch)"

section \<open>Shared memory: the concurrent-update mode\<close>

text \<open>
  What a thread can do to the shared \<^verbatim>\<open>Int32Array\<close>: read an element
  (\<^verbatim>\<open>sharedArray[i]\<close>), assign one by index (\<^verbatim>\<open>sharedArray[i] = v\<close>), or store one
  atomically (\<^verbatim>\<open>Atomics.store(sharedArray, i, v)\<close>). A trace is the list of operations
  a thread performs, in program order.
\<close>

datatype array_op = IndexedRead nat | IndexedAssign nat int | AtomicsStore nat int

fun is_mutation :: "array_op \<Rightarrow> bool" where
  "is_mutation (IndexedRead i) = False"
| "is_mutation (IndexedAssign i v) = True"
| "is_mutation (AtomicsStore i v) = True"

fun is_atomic :: "array_op \<Rightarrow> bool" where
  "is_atomic (IndexedRead i) = False"
| "is_atomic (IndexedAssign i v) = False"
| "is_atomic (AtomicsStore i v) = True"

fun is_plain_assign :: "array_op \<Rightarrow> bool" where
  "is_plain_assign (IndexedRead i) = False"
| "is_plain_assign (IndexedAssign i v) = True"
| "is_plain_assign (AtomicsStore i v) = False"

text \<open>
  \<^verbatim>\<open>updateSharedMemory(sharedArray, updateCount, workerId)\<close> of \<^verbatim>\<open>cpu-worker.js\<close>. The
  successive values of \<^verbatim>\<open>Math.random()\<close> are the parameter \<open>rnd\<close>: iteration \<open>i\<close> draws
  \<open>rnd (2 * i)\<close> for the index and \<open>rnd (2 * i + 1)\<close> for the value. \<open>len\<close> is
  \<^verbatim>\<open>sharedArray.length\<close>. \<^verbatim>\<open>Atomics.store\<close> throws a \<^verbatim>\<open>RangeError\<close> for an index outside
  the array (index 0 of an empty array); the loop then ends with the error, \<open>Inl\<close>. The
  function returns the trace of its stores with \<^verbatim>\<open>updatesPerformed\<close>.
\<close>

function updateLoop ::
  "(nat \<Rightarrow> real) \<Rightarrow> nat \<Rightarrow> nat \<Rightarrow> nat \<Rightarrow> nat \<Rightarrow> array_op list \<Rightarrow> (string + nat) \<times> array_op list"
where
  "updateLoop rnd len updateCount i updatesPerformed trace =
     (if i < updateCount then
        (let randomIndex = \<lfloor>rnd (2 * i) * real len\<rfloor>;
             randomValue = \<lfloor>rnd (2 * i + 1) * 1000\<rfloor>
         in if 0 \<le> randomIndex \<and> randomIndex < int len
            then updateLoop rnd len updateCount (i + 1) (updatesPerformed + 1)
                   (trace @ [AtomicsStore (nat randomIndex) randomValue])
            else (Inl ''Invalid atomic access index'', trace))
      else (Inr updatesPerformed, trace))"
  by pat_completeness auto
termination
  by (relation "measure (\<lambda>(rnd, len, updateCount, i, updatesPerformed, trace). updateCount - i)")
     auto

definition updateSharedMemory ::
  "(nat \<Rightarrow> real) \<Rightarrow> nat \<Rightarrow> nat \<Rightarrow> nat \<Rightarrow> (string + nat) \<times> array_op list" where
  "updateSharedMemory rnd len updateCount workerId = updateLoop rnd len updateCount 0 0 []"

text \<open>
  The worker's entry for \<^verbatim>\<open>type: 'shared-memory-update'\<close>: the result is posted, a
  thrown error is caught and posted as \<^verbatim>\<open>{ error: error.message }\<close>.
\<close>

definition cpu_worker_update ::
  "(nat \<Rightarrow> real) \<Rightarrow> nat \<Rightarrow> nat \<Rightarrow> nat \<Rightarrow> nat message \<times> array_op list" where
  "cpu_worker_update rnd len updateCount workerId =
     (case updateSharedMemory rnd len updateCount workerId of
        (Inr result, trace) \<Rightarrow> (Result result, trace)
      | (Inl error_message, trace) \<Rightarrow> (ErrorObject error_message, trace))"

text \<open>
  The threads run in parallel: a trace of the whole is any interleaving of the threads'
  traces that keeps each thread's program order.
\<close>

inductive interleaved :: "'a list list \<Rightarrow> 'a list \<Rightarrow> bool" where
  finished: "list_all (\<lambda>t. t = []) threads \<Longrightarrow> interleaved threads []"
| advance: "i < length threads \<Longrightarrow> threads ! i = x # rest \<Longrightarrow>
            interleaved (threads[i := rest]) trace \<Longrightarrow> interleaved threads (x # trace)"

text \<open>
  \<^verbatim>\<open>concurrentUpdates(sharedArray, bufferSize)\<close>: four workers, each with
  \<^verbatim>\<open>Math.floor(updateCount / 4)\<close> updates and its own random numbers \<open>rnds i\<close>; after
  \<^verbatim>\<open>Promise.all\<close> the main thread reads the first ten elements for display. The source
  fixes \<^verbatim>\<open>updateCount = 100000\<close>; here it is a parameter.
\<close>

definition worker_traces :: "(nat \<Rightarrow> nat \<Rightarrow> real) \<Rightarrow> nat \<Rightarrow> nat \<Rightarrow> array_op list list" where
  "worker_traces rnds len updateCount =
     map (\<lambda>i. snd (cpu_worker_update (rnds i) len (updateCount div 4) i)) [0..<4]"

definition concurrentUpdates_trace ::
  "(nat \<Rightarrow> nat \<Rightarrow> real) \<Rightarrow> nat \<Rightarrow> nat \<Rightarrow> array_op list \<Rightarrow> bool" where
  "concurrentUpdates_trace rnds len updateCount trace =
     (\<exists>stores. interleaved (worker_traces rnds len updateCount) stores \<and>
               trace = stores @ map IndexedRead [0..<10])"

declare updateLoop.simps [simp del]

text \<open>Random numbers for an example: worker \<open>w\<close> draws \<open>(w + k) / 8\<close> as its \<open>k\<close>-th number.\<close>

definition sample_rnds :: "nat \<Rightarrow> nat \<Rightarrow> real" where
  "sample_rnds w k = real ((w + k) mod 8) / 8"

text \<open>An operation that is not an indexed assignment, and that is atomic if it mutates.\<close>

definition no_plain_mutation :: "array_op \<Rightarrow> bool" where
  "no_plain_mutation op = (\<not> is_plain_assign op \<and> (\<not> is_mutation op \<or> is_atomic op))"

text \<open>One interleaving of the four sample workers' stores (two updates each).\<close>

definition sample_stores :: "array_op list" where
  "sample_stores =
     [AtomicsStore 0 125, AtomicsStore 1 250, AtomicsStore 3 500, AtomicsStore 3 500,
      AtomicsStore 2 375, AtomicsStore 2 375, AtomicsStore 5 750, AtomicsStore 4 625]"

section \<open>Event-loop monitor: the interruptible loop\<close>






















section \<open>Proofs: accumulation loops\<close>

lemma syncLoop_fold:
  "syncLoop add n i acc = fold (\<lambda>k a. add a k) [i..<n] acc"
proof (induction add n i acc rule: syncLoop.induct)
  case (1 add n i acc)
  show ?case
  proof (cases "i < n")
    case True
    then have "[i..<n] = i # [i + 1..<n]" by (simp add: upt_conv_Cons)
    with True "1" show ?thesis by simp
  next
    case False
    then show ?thesis by simp
  qed
qed

lemma chunkLoop_fold:
  "chunkLoop add m j acc = fold (\<lambda>k a. add a k) [j..<m] acc"
proof (induction add m j acc rule: chunkLoop.induct)
  case (1 add m j acc)
  show ?case
  proof (cases "j < m")
    case True
    then have "[j..<m] = j # [j + 1..<m]" by (simp add: upt_conv_Cons)
    with True "1" show ?thesis by simp
  next
    case False
    then show ?thesis by simp
  qed
qed

lemma asyncLoop_fold:
  "asyncLoop add n i acc = fold (\<lambda>k a. add a k) [i..<n] acc"
proof (induction add n i acc rule: asyncLoop.induct)
  case (1 add n i acc)
  show ?case
  proof (cases "i < n")
    case True
    let ?m = "min (i + chunkSize) n"
    let ?f = "\<lambda>k a. add a k"
    have "i \<le> ?m" "?m \<le> n"
      using True by simp_all
    then have "[i..<n] = [i..<?m] @ [?m..<n]"
      by (metis le_Suc_ex upt_add_eq_append)
    then have whole: "fold ?f [i..<n] acc = fold ?f [?m..<n] (fold ?f [i..<?m] acc)"
      by (metis fold_append comp_apply)
    have rest: "[i + chunkSize..<n] = [?m..<n]"
      by (cases "i + chunkSize \<le> n") (simp_all add: min_def)
    have "asyncLoop add n i acc =
            asyncLoop add n (i + chunkSize) (chunkLoop add ?m i acc)"
      using True by simp
    also have "\<dots> = fold ?f [i + chunkSize..<n] (chunkLoop add ?m i acc)"
      using "1" True by simp
    also have "\<dots> = fold ?f [?m..<n] (fold ?f [i..<?m] acc)"
      unfolding rest chunkLoop_fold ..
    finally show ?thesis
      unfolding whole .
  next
    case False
    then show ?thesis by simp
  qed
qed

lemma fold_int_sum:
  "fold (\<lambda>k a. a + int k) [i..<n] acc = acc + (\<Sum>k = i..<n. int k)"
proof (induction n)
  case 0
  then show ?case by simp
next
  case (Suc n)
  then show ?case
    by (cases "i \<le> n") (simp_all add: sum.atLeastLessThan_Suc)
qed

text \<open>
  C10: for every iteration count \<open>n\<close> the chunked accumulation of \<^verbatim>\<open>asyncVsSync\<close>
  (chunks of 10000) returns the same number as the straight loop, whatever the addition
  of the number type does; with exact addition both are the sum of \<open>0..n-1\<close>, so the
  comparison \<^verbatim>\<open>syncResult === asyncResult\<close> succeeds.
\<close>

theorem asyncVsSync_results_match:
  "asyncResult_of add zero n = syncResult_of add zero n \<and>
   syncResult_of (\<lambda>s i. s + int i) 0 n = (\<Sum>k = 0..<n. int k) \<and>
   asyncResult_of (\<lambda>s i. s + int i) 0 n = (\<Sum>k = 0..<n. int k)"
proof -
  have eq: "asyncResult_of add' z n = syncResult_of add' z n"
    for add' :: "'b \<Rightarrow> nat \<Rightarrow> 'b" and z
    unfolding asyncResult_of_def syncResult_of_def asyncLoop_fold syncLoop_fold ..
  have "syncResult_of (\<lambda>s i. s + int i) 0 n = (\<Sum>k = 0..<n. int k)"
    unfolding syncResult_of_def syncLoop_fold fold_int_sum by simp
  with eq [of add zero] eq [of "\<lambda>s i. s + int i" 0] show ?thesis
    by (simp only:)
qed

section \<open>Proofs: partition of the shared buffer\<close>

lemma worker_range_inner:
  "i \<noteq> W - 1 \<Longrightarrow> worker_range L W i = (i * (L div W), (i + 1) * (L div W))"
  by (simp add: worker_range_def Let_def)

lemma worker_range_last:
  "i = W - 1 \<Longrightarrow> worker_range L W i = (i * (L div W), L)"
  by (simp add: worker_range_def Let_def)

lemma covers_iff:
  assumes W: "1 \<le> W" "W \<le> L" and i: "i < W" and k: "k < L"
  shows "covers (worker_range L W i) k \<longleftrightarrow> i = min (k div (L div W)) (W - 1)"
proof -
  let ?c = "L div W"
  have c: "0 < ?c"
    using W by (simp add: div_greater_zero_iff)
  show ?thesis
  proof (cases "i = W - 1")
    case True
    have "covers (worker_range L W i) k \<longleftrightarrow> (W - 1) * ?c \<le> k"
      using k True by (simp add: worker_range_last covers_def)
    also have "\<dots> \<longleftrightarrow> W - 1 \<le> k div ?c"
      using c by (simp add: less_eq_div_iff_mult_less_eq)
    finally show ?thesis
      using True by auto
  next
    case False
    with i have lt: "i < W - 1" by simp
    have "covers (worker_range L W i) k \<longleftrightarrow> i * ?c \<le> k \<and> k < (i + 1) * ?c"
      using False by (simp add: worker_range_inner covers_def)
    also have "\<dots> \<longleftrightarrow> i \<le> k div ?c \<and> k div ?c < i + 1"
      using c by (simp add: less_eq_div_iff_mult_less_eq div_less_iff_less_mult)
    also have "\<dots> \<longleftrightarrow> k div ?c = i"
      by auto
    finally show ?thesis
      using lt by auto
  qed
qed

text \<open>
  C6: for a buffer of length \<open>L\<close> and \<open>W\<close> workers with \<open>1 \<le> W \<le> L\<close>, the ranges that
  \<^verbatim>\<open>parallelProcessing\<close> assigns (one per worker, each inside \<open>[0, L)\<close>) cover every
  index below \<open>L\<close> exactly once: for each index there is one and only one worker whose
  range holds it.
\<close>

theorem ranges_partition:
  assumes "1 \<le> W" and "W \<le> L"
  shows "length (ranges L W) = W \<and>
         (\<forall>i < W. ranges L W ! i = worker_range L W i \<and> snd (ranges L W ! i) \<le> L) \<and>
         (\<forall>k < L. \<exists>!i. i < W \<and> covers (ranges L W ! i) k)"
proof (intro conjI allI impI)
  show "length (ranges L W) = W"
    by (simp add: ranges_def)
next
  fix i assume "i < W"
  then show "ranges L W ! i = worker_range L W i"
    by (simp add: ranges_def)
next
  fix i assume i: "i < W"
  show "snd (ranges L W ! i) \<le> L"
  proof (cases "i = W - 1")
    case True
    with i show ?thesis by (simp add: ranges_def worker_range_last)
  next
    case False
    with i have lt: "i < W - 1" by simp
    then have "(i + 1) * (L div W) \<le> W * (L div W)"
      by (intro mult_le_mono1) simp
    also have "\<dots> \<le> L" by simp
    finally show ?thesis
      using i False by (simp add: ranges_def worker_range_inner)
  qed
next
  fix k assume k: "k < L"
  let ?j = "min (k div (L div W)) (W - 1)"
  have j: "?j < W" using assms by simp
  have "\<And>i. i < W \<and> covers (ranges L W ! i) k \<longleftrightarrow> i = ?j"
    using covers_iff [OF assms _ k] j by (auto simp: ranges_def)
  then show "\<exists>!i. i < W \<and> covers (ranges L W ! i) k"
    by auto
qed

theorem ranges_partition_witness:
  "(1::nat) \<le> 4 \<and> (4::nat) \<le> 10 \<and>
   parallelProcessing_ranges 10 = [(0, 2), (2, 4), (4, 6), (6, 10)] \<and>
   snd (parallelProcessing_ranges 10 ! 3) \<le> 10 \<and>
   (\<exists>!i. i < 4 \<and> covers (parallelProcessing_ranges 10 ! i) 9)"
proof -
  have "ranges 10 4 = [(0, 2), (2, 4), (4, 6), (6, 10)]"
    by (simp add: ranges_def worker_range_def upt_rec)
  with ranges_partition [of 4 10] show ?thesis
    by (simp add: parallelProcessing_ranges_def)
qed

section \<open>Proofs: the lag history window\<close>

lemma monitorEventLoop_fields [simp]:
  "monitoring (monitorEventLoop now st) = monitoring st"
  "startTime (monitorEventLoop now st) = startTime st"
  "stopped (monitorEventLoop now st) = stopped st"
  by (simp_all add: monitorEventLoop_def setTimeout_def Let_def)

lemma monitorEventLoop_history:
  "lagHistory (monitorEventLoop now st) =
     (if monitoring st then push_shift (lagHistory st) (now - (lastCheck st + 16))
      else lagHistory st)"
  by (simp add: monitorEventLoop_def setTimeout_def Let_def)

lemma monitorEventLoop_lastCheck:
  "lastCheck (monitorEventLoop now st) = (if monitoring st then now else lastCheck st)"
  by (simp add: monitorEventLoop_def setTimeout_def Let_def)

lemma push_shift_drop:
  "length h \<le> 100 \<Longrightarrow> push_shift h x = drop (length h + 1 - 100) (h @ [x])"
proof (cases "length h = 100")
  case True
  then obtain y ys where "h = y # ys" by (cases h) auto
  then have "tl (h @ [x]) = drop 1 (h @ [x])"
    by simp
  with True show ?thesis
    by (simp add: push_shift_def Let_def)
next
  case False
  assume "length h \<le> 100"
  with False show ?thesis
    by (simp add: push_shift_def Let_def)
qed

lemma length_push_shift: "length h \<le> 100 \<Longrightarrow> length (push_shift h x) \<le> 100"
  by (simp add: push_shift_drop)

lemma ticks_idle: "\<not> monitoring st \<Longrightarrow> ticks nows st = st"
  by (induction nows) (simp_all add: monitorEventLoop_def)

lemma ticks_length:
  "length (lagHistory st) \<le> 100 \<Longrightarrow> length (lagHistory (ticks nows st)) \<le> 100"
proof (induction nows arbitrary: st)
  case Nil
  then show ?case by simp
next
  case (Cons now nows)
  have "length (lagHistory (monitorEventLoop now st)) \<le> 100"
    using Cons.prems by (simp add: monitorEventLoop_history length_push_shift)
  then show ?case
    using Cons.IH by simp
qed

lemma ticks_window:
  assumes "monitoring st" and "length (lagHistory st) \<le> 100"
  shows "lagHistory (ticks nows st) =
           drop (length (lagHistory st) + length nows - 100)
             (lagHistory st @ lags_of (lastCheck st) nows)"
  using assms
proof (induction nows arbitrary: st)
  case Nil
  then show ?case by simp
next
  case (Cons now nows)
  let ?st = "monitorEventLoop now st"
  let ?x = "now - (lastCheck st + 16)"
  let ?h = "lagHistory st"
  have h': "lagHistory ?st = drop (length ?h + 1 - 100) (?h @ [?x])"
    using Cons.prems by (simp add: monitorEventLoop_history push_shift_drop)
  have len: "length (lagHistory ?st) \<le> 100"
    using Cons.prems by (simp add: monitorEventLoop_history length_push_shift)
  have last: "lastCheck ?st = now"
    using Cons.prems by (simp add: monitorEventLoop_lastCheck)
  have "lagHistory (ticks (now # nows) st) =
          drop (length (lagHistory ?st) + length nows - 100)
            (lagHistory ?st @ lags_of now nows)"
    using Cons.IH [of ?st] Cons.prems(1) len last by simp
  also have "\<dots> = drop (length ?h + length (now # nows) - 100) (?h @ lags_of (lastCheck st) (now # nows))"
    using Cons.prems(2) unfolding h' by (cases "length ?h = 100") (simp_all add: drop_Suc)
  finally show ?case .
qed

lemma length_lags_of [simp]: "length (lags_of previous nows) = length nows"
  by (induction nows arbitrary: previous) simp_all

text \<open>
  C3: whatever the tick times, the lag history never grows beyond 100 entries (from any
  state whose history has at most 100, the constructor's empty history among them); and
  101 ticks of a running monitor that started with an empty history leave exactly the
  samples of ticks 2 to 101: the sample of the first tick has been shifted out (and, when
  the recorded lags are pairwise different, its value occurs nowhere in the history).
\<close>

theorem lag_history_window:
  assumes "length (lagHistory st) \<le> 100"
  shows "length (lagHistory (ticks nows st)) \<le> 100 \<and>
         (monitoring st \<and> lagHistory st = [] \<and> length nows = 101 \<longrightarrow>
            lagHistory (ticks nows st) = tl (lags_of (lastCheck st) nows) \<and>
            (distinct (lags_of (lastCheck st) nows) \<longrightarrow>
               hd (lags_of (lastCheck st) nows) \<notin> set (lagHistory (ticks nows st))))"
proof (intro conjI impI)
  show "length (lagHistory (ticks nows st)) \<le> 100"
    using assms by (rule ticks_length)
next
  assume a: "monitoring st \<and> lagHistory st = [] \<and> length nows = 101"
  then show eq: "lagHistory (ticks nows st) = tl (lags_of (lastCheck st) nows)"
    using ticks_window [of st nows] by (simp add: drop_Suc)
  assume d: "distinct (lags_of (lastCheck st) nows)"
  from a obtain x xs where "lags_of (lastCheck st) nows = x # xs"
    by (cases "lags_of (lastCheck st) nows") (auto dest: arg_cong [where f = length])
  with d show "hd (lags_of (lastCheck st) nows) \<notin> set (lagHistory (ticks nows st))"
    unfolding eq by simp
qed

lemma lags_of_quadratic:
  "lags_of (real (1000 * j + j * j)) (map (\<lambda>k. real (1000 * k + k * k)) [Suc j..<n]) =
     map (\<lambda>k. real (983 + 2 * k)) [Suc j..<n]"
proof (induction "n - Suc j" arbitrary: j)
  case 0
  then show ?case by simp
next
  case (Suc d)
  then have lt: "Suc j < n" and d: "d = n - Suc (Suc j)"
    by simp_all
  have "[Suc j..<n] = Suc j # [Suc (Suc j)..<n]"
    using lt by (simp add: upt_conv_Cons)
  then show ?case
    using Suc.hyps(1) [OF d] by (simp add: algebra_simps)
qed

lemma lags_of_sample: "lags_of 0 sample_times = map (\<lambda>k. real (983 + 2 * k)) [1..<102]"
  using lags_of_quadratic [of 0 102] by (simp add: sample_times_def)

theorem lag_history_window_witness:
  "length (lagHistory (new_monitor\<lparr>monitoring := True\<rparr>)) \<le> 100 \<and>
   monitoring (new_monitor\<lparr>monitoring := True\<rparr>) \<and>
   lagHistory (new_monitor\<lparr>monitoring := True\<rparr>) = [] \<and>
   length sample_times = 101 \<and>
   distinct (lags_of 0 sample_times) \<and>
   hd (lags_of 0 sample_times) = 985 \<and>
   length (lagHistory (ticks sample_times (new_monitor\<lparr>monitoring := True\<rparr>))) = 100 \<and>
   985 \<notin> set (lagHistory (ticks sample_times (new_monitor\<lparr>monitoring := True\<rparr>)))"
proof -
  let ?st = "new_monitor\<lparr>monitoring := True\<rparr>"
  have st: "length (lagHistory ?st) \<le> 100" "monitoring ?st" "lagHistory ?st = []" "lastCheck ?st = 0"
    by (simp_all add: new_monitor_def)
  have len: "length sample_times = 101"
    by (simp add: sample_times_def)
  have d: "distinct (lags_of 0 sample_times)"
    unfolding lags_of_sample by (simp add: distinct_map inj_on_def)
  have h: "hd (lags_of 0 sample_times) = 985"
    unfolding lags_of_sample by (simp add: upt_conv_Cons)
  note inst = lag_history_window [OF st(1), of sample_times, unfolded st(4)]
  from inst have bound: "length (lagHistory (ticks sample_times ?st)) \<le> 100" ..
  from inst st(2,3) len
  have eq: "lagHistory (ticks sample_times ?st) = tl (lags_of 0 sample_times)"
    by blast
  from inst st(2,3) len d
  have "hd (lags_of 0 sample_times) \<notin> set (lagHistory (ticks sample_times ?st))"
    by blast
  then have absent: "985 \<notin> set (lagHistory (ticks sample_times ?st))"
    unfolding h .
  have "length (lagHistory (ticks sample_times ?st)) = 100"
    unfolding eq by (simp add: len)
  with st len d h absent show ?thesis
    by blast
qed

text \<open>
  C4 at a concrete tick: the previous tick was at 0 and the callback, re-armed with
  \<^verbatim>\<open>setTimeout(..., 1000)\<close>, fires exactly on time at 1000. The recorded lag is
  \<open>1000 - (0 + 16) = 984\<close>, not \<open>1000 - (0 + 1000) = 0\<close>: the expected time is computed
  with the constant 16 and not with the cadence of 1000 the callback is scheduled at.
  The sample is appended, reported, and the next tick is armed at \<open>now + 1000\<close>.
\<close>

theorem monitorEventLoop_lag_off_cadence:
  "lagHistory (monitorEventLoop 1000 (new_monitor\<lparr>monitoring := True\<rparr>)) = [984] \<and>
   lagHistory (monitorEventLoop 1000 (new_monitor\<lparr>monitoring := True\<rparr>)) \<noteq>
     [1000 - (lastCheck (new_monitor\<lparr>monitoring := True\<rparr>) + 1000)] \<and>
   map lag (console (monitorEventLoop 1000 (new_monitor\<lparr>monitoring := True\<rparr>))) = [984] \<and>
   lastCheck (monitorEventLoop 1000 (new_monitor\<lparr>monitoring := True\<rparr>)) = 1000 \<and>
   timers (monitorEventLoop 1000 (new_monitor\<lparr>monitoring := True\<rparr>)) =
     [\<lparr>due = 2000, callback = MonitorTick, repeat = None\<rparr>]"
  by (simp add: monitorEventLoop_def new_monitor_def setTimeout_def push_shift_def Let_def)

section \<open>Proofs: the monitoring session\<close>

lemma monitorEventLoop_timers:
  "timers (monitorEventLoop now st) =
     (if monitoring st
      then timers st @ [\<lparr>due = now + 1000, callback = MonitorTick, repeat = None\<rparr>]
      else timers st)"
  by (simp add: monitorEventLoop_def setTimeout_def Let_def)

lemma monitorEventLoop_flags:
  "monitoring (monitorEventLoop now st) = monitoring st"
  "stopped (monitorEventLoop now st) = stopped st"
  by (simp_all add: monitorEventLoop_def setTimeout_def Let_def)

lemma monitorEventLoop_stopped:
  "\<not> monitoring st \<Longrightarrow> monitorEventLoop now st = st"
  by (simp add: monitorEventLoop_def)

lemma startMonitoring_fields:
  "monitoring (startMonitoring t0 st)"
  "\<not> stopped (startMonitoring t0 st)"
  "timers (startMonitoring t0 st) = timers st @
     [\<lparr>due = t0 + 1000, callback = MonitorTick, repeat = None\<rparr>,
      \<lparr>due = t0 + 2000, callback = NextTickInterval, repeat = Some 2000\<rparr>,
      \<lparr>due = t0, callback = Immediate, repeat = None\<rparr>,
      \<lparr>due = t0 + 2000, callback = MicrotaskInterval, repeat = Some 2000\<rparr>,
      \<lparr>due = t0 + 30000, callback = AutoStop, repeat = None\<rparr>]"
  by (simp_all add: startMonitoring_def waitForStop_def startBackgroundTasks_def
      setTimeout_def setInterval_def setImmediate_def monitorEventLoop_timers
      monitorEventLoop_flags)

lemma session_inv_start:
  assumes "timers st = []"
  shows "session_inv t0 (startMonitoring t0 st)"
  by (simp add: session_inv_def ticks_pending_def startMonitoring_fields assms)

text \<open>A due timer splits the table around itself.\<close>

lemma fire_split:
  assumes "i < length (timers st)" and "due (timers st ! i) \<le> now"
  obtains before t after where
    "timers st = before @ t # after" and "t = timers st ! i" and "due t \<le> now" and
    "fire i now st =
       run_callback (callback t) now
         (st\<lparr>timers := (case repeat t of None \<Rightarrow> before @ after
                         | Some period \<Rightarrow> before @ t\<lparr>due := now + period\<rparr> # after)\<rparr>)"
proof -
  let ?t = "timers st ! i"
  have split: "timers st = take i (timers st) @ ?t # drop (Suc i) (timers st)"
    using assms(1) by (simp add: id_take_nth_drop)
  have upd: "(timers st)[i := x] = take i (timers st) @ x # drop (Suc i) (timers st)" for x
    using assms(1) by (simp add: upd_conv_take_nth_drop)
  have "fire i now st =
       run_callback (callback ?t) now
         (st\<lparr>timers := (case repeat ?t of None \<Rightarrow> take i (timers st) @ drop (Suc i) (timers st)
                         | Some period \<Rightarrow>
                             take i (timers st) @ ?t\<lparr>due := now + period\<rparr> # drop (Suc i) (timers st))\<rparr>)"
    using assms by (simp add: fire_def Let_def upd split: option.splits)
  with split refl assms(2) show thesis
    by (rule that)
qed

lemma fire_disabled:
  "\<not> (i < length (timers st) \<and> due (timers st ! i) \<le> now) \<Longrightarrow> fire i now st = st"
  unfolding fire_def by (simp only: if_False)

lemma session_inv_fire:
  assumes inv: "session_inv t0 st"
  shows "session_inv t0 (fire i now st)"
proof (cases "i < length (timers st) \<and> due (timers st ! i) \<le> now")
  case False
  with inv show ?thesis by (simp add: fire_disabled)
next
  case True
  then obtain before t after where
    tab: "timers st = before @ t # after" and
    f: "fire i now st =
       run_callback (callback t) now
         (st\<lparr>timers := (case repeat t of None \<Rightarrow> before @ after
                         | Some period \<Rightarrow> before @ t\<lparr>due := now + period\<rparr> # after)\<rparr>)"
    by (auto elim: fire_split)
  show ?thesis
  proof (cases "callback t")
    case MonitorTick
    with inv tab have r: "repeat t = None"
      by (simp add: session_inv_def)
    from inv tab MonitorTick have none: "filter (\<lambda>t. callback t = MonitorTick) (before @ after) = []"
      by (simp add: session_inv_def ticks_pending_def)
    show ?thesis
      using inv none unfolding f
      by (auto simp: MonitorTick r tab session_inv_def ticks_pending_def
          monitorEventLoop_timers monitorEventLoop_flags)
  next
    case AutoStop
    with inv tab have r: "repeat t = None"
      by (simp add: session_inv_def)
    show ?thesis
      using inv unfolding f
      by (auto simp: AutoStop r tab session_inv_def ticks_pending_def)
  next
    case NextTickInterval
    show ?thesis
      using inv unfolding f
      by (auto simp: NextTickInterval tab session_inv_def ticks_pending_def split: option.splits)
  next
    case MicrotaskInterval
    show ?thesis
      using inv unfolding f
      by (auto simp: MicrotaskInterval tab session_inv_def ticks_pending_def split: option.splits)
  next
    case Immediate
    show ?thesis
      using inv unfolding f
      by (auto simp: Immediate tab session_inv_def ticks_pending_def setImmediate_def
          split: option.splits)
  next
    case NestedImmediate
    show ?thesis
      using inv unfolding f
      by (auto simp: NestedImmediate tab session_inv_def ticks_pending_def split: option.splits)
  qed
qed

lemma session_inv_step: "session_inv t0 st \<Longrightarrow> session_inv t0 (loop_step ev st)"
  by (cases ev) (simp_all add: session_inv_fire)

lemma session_inv_run: "session_inv t0 st \<Longrightarrow> session_inv t0 (run_loop evs st)"
  by (induction evs arbitrary: st) (simp_all add: run_loop_def session_inv_step)

lemmas session_eval =
  run_loop_def fire_def startMonitoring_def waitForStop_def startBackgroundTasks_def
  setTimeout_def setInterval_def setImmediate_def monitorEventLoop_def push_shift_def
  new_monitor_def Let_def

lemma fire_keeps_running:
  assumes inv: "session_inv t0 st" and run: "monitoring st" and early: "now < t0 + 30000"
  shows "monitoring (fire i now st)"
proof (cases "i < length (timers st) \<and> due (timers st ! i) \<le> now")
  case False
  with run show ?thesis by (simp add: fire_disabled)
next
  case True
  then obtain before t after where
    tab: "timers st = before @ t # after" and d: "due t \<le> now" and
    f: "fire i now st =
       run_callback (callback t) now
         (st\<lparr>timers := (case repeat t of None \<Rightarrow> before @ after
                         | Some period \<Rightarrow> before @ t\<lparr>due := now + period\<rparr> # after)\<rparr>)"
    by (auto elim: fire_split)
  have "callback t \<noteq> AutoStop"
  proof
    assume "callback t = AutoStop"
    with inv tab have "due t = t0 + 30000"
      by (simp add: session_inv_def)
    with d early show False by simp
  qed
  then show ?thesis
    unfolding f using run
    by (cases "callback t") (simp_all add: monitorEventLoop_flags setImmediate_def)
qed

lemma run_keeps_running:
  assumes "session_inv t0 st" and "monitoring st"
    and "list_all (\<lambda>ev. time_of ev < t0 + 30000) evs"
  shows "monitoring (run_loop evs st)"
  using assms
proof (induction evs arbitrary: st)
  case Nil
  then show ?case by (simp add: run_loop_def)
next
  case (Cons ev evs)
  have m: "monitoring (loop_step ev st)"
  proof (cases ev)
    case (Fire i now)
    with Cons.prems show ?thesis
      by (simp add: fire_keeps_running)
  next
    case (UserInput line now)
    with Cons.prems show ?thesis by simp
  qed
  have "monitoring (run_loop evs (loop_step ev st))"
    using Cons.prems(3) by (intro Cons.IH session_inv_step Cons.prems(1) m) simp
  then show ?case by (simp add: run_loop_def)
qed

lemma fire_stop_timer:
  assumes inv: "session_inv t0 st" and i: "i < length (timers st)"
    and cb: "callback (timers st ! i) = AutoStop" and d: "due (timers st ! i) \<le> now"
  shows "stopped (fire i now st) \<and> \<not> monitoring (fire i now st)"
proof -
  from inv i cb have "repeat (timers st ! i) = None"
    by (simp add: session_inv_def list_all_length)
  with i cb d inv show ?thesis
    by (auto simp: fire_def Let_def session_inv_def)
qed

text \<open>Once the session has ended, no callback changes the monitor or arms a tick.\<close>

lemma fire_after_stop:
  assumes inv: "session_inv t0 st" and s: "stopped st"
  shows "stopped (fire i now st) \<and> \<not> monitoring (fire i now st) \<and>
         lagHistory (fire i now st) = lagHistory st \<and> console (fire i now st) = console st \<and>
         ticks_pending (fire i now st) \<le> ticks_pending st"
proof (cases "i < length (timers st) \<and> due (timers st ! i) \<le> now")
  case False
  with inv s show ?thesis by (simp add: fire_disabled session_inv_def)
next
  case True
  then obtain before t after where
    tab: "timers st = before @ t # after" and
    f: "fire i now st =
       run_callback (callback t) now
         (st\<lparr>timers := (case repeat t of None \<Rightarrow> before @ after
                         | Some period \<Rightarrow> before @ t\<lparr>due := now + period\<rparr> # after)\<rparr>)"
    by (auto elim: fire_split)
  from inv s have m: "\<not> monitoring st"
    by (simp add: session_inv_def)
  show ?thesis
    unfolding f using s m
    by (cases "callback t")
       (auto simp: tab ticks_pending_def monitorEventLoop_stopped setImmediate_def
          split: option.splits)
qed

lemma fire_last_tick:
  assumes inv: "session_inv t0 st" and s: "stopped st" and i: "i < length (timers st)"
    and cb: "callback (timers st ! i) = MonitorTick" and d: "due (timers st ! i) \<le> now"
  shows "ticks_pending (fire i now st) = 0"
proof -
  from i d obtain before t after where
    tab: "timers st = before @ t # after" and
    ti: "t = timers st ! i" and
    f: "fire i now st =
       run_callback (callback t) now
         (st\<lparr>timers := (case repeat t of None \<Rightarrow> before @ after
                         | Some period \<Rightarrow> before @ t\<lparr>due := now + period\<rparr> # after)\<rparr>)"
    by (auto elim: fire_split)
  from inv s have m: "\<not> monitoring st"
    by (simp add: session_inv_def)
  from cb ti have c: "callback t = MonitorTick" by simp
  with inv tab have r: "repeat t = None"
    by (simp add: session_inv_def)
  from inv tab c have "filter (\<lambda>t. callback t = MonitorTick) (before @ after) = []"
    by (simp add: session_inv_def ticks_pending_def)
  then show ?thesis
    unfolding f using m
    by (simp add: c r ticks_pending_def monitorEventLoop_stopped)
qed

lemma run_after_stop:
  assumes "session_inv t0 st" and "stopped st"
  shows "stopped (run_loop evs st) \<and> \<not> monitoring (run_loop evs st) \<and>
         lagHistory (run_loop evs st) = lagHistory st \<and> console (run_loop evs st) = console st \<and>
         ticks_pending (run_loop evs st) \<le> ticks_pending st"
  using assms
proof (induction evs arbitrary: st)
  case Nil
  then show ?case by (simp add: run_loop_def session_inv_def)
next
  case (Cons ev evs)
  let ?st = "loop_step ev st"
  have one: "stopped ?st \<and> \<not> monitoring ?st \<and> lagHistory ?st = lagHistory st \<and>
             console ?st = console st \<and> ticks_pending ?st \<le> ticks_pending st"
  proof (cases ev)
    case (Fire i now)
    with fire_after_stop [OF Cons.prems] show ?thesis by simp
  next
    case (UserInput line now)
    with Cons.prems show ?thesis by (simp add: session_inv_def)
  qed
  from Cons.IH [OF session_inv_step [OF Cons.prems(1)], of ev] one
  have "stopped (run_loop evs ?st) \<and> \<not> monitoring (run_loop evs ?st) \<and>
         lagHistory (run_loop evs ?st) = lagHistory ?st \<and> console (run_loop evs ?st) = console ?st \<and>
         ticks_pending (run_loop evs ?st) \<le> ticks_pending ?st"
    by blast
  with one show ?case
    by (simp add: run_loop_def)
qed

text \<open>
  C5 at a concrete session started at time 0 on a new monitor. \<^verbatim>\<open>startMonitoring\<close> has
  printed \<^verbatim>\<open>Or type "stop" to stop early\<close>, but a line \<^verbatim>\<open>stop\<close> typed five seconds into
  the session leaves it running: the flag is still set and the session has not ended. And
  at the end of the session as it runs on an idle machine (stopped by the timer at 30000,
  the last armed tick fired) the two interval timers of \<^verbatim>\<open>startBackgroundTasks\<close> have
  fired again at 32000 and are armed for 34000: the session's recurring timers were not
  released.
\<close>

theorem startMonitoring_ignores_stop_and_leaks_intervals:
  "monitoring (run_loop [UserInput ''stop'' 5000] (startMonitoring 0 new_monitor)) \<and>
   \<not> stopped (run_loop [UserInput ''stop'' 5000] (startMonitoring 0 new_monitor)) \<and>
   stopped (run_loop sample_session (startMonitoring 0 new_monitor)) \<and>
   \<not> monitoring (run_loop sample_session (startMonitoring 0 new_monitor)) \<and>
   timers (run_loop sample_session (startMonitoring 0 new_monitor)) =
     [\<lparr>due = 34000, callback = NextTickInterval, repeat = Some 2000\<rparr>,
      \<lparr>due = 34000, callback = MicrotaskInterval, repeat = Some 2000\<rparr>]"
  by (simp add: session_eval sample_session_def second_events_def upt_conv_Cons
      Math_min_def Math_max_def)

text \<open>
  What the stop timer does ensure for a session started on an empty timer table (the
  first session of a monitor; a later one finds the timers the earlier left behind).
  While every event comes before \<open>t0 + 30000\<close> the session runs; as long as it runs, the
  stop timer is armed for \<open>t0 + 30000\<close>, and when it fires the flag is cleared and the
  session has ended. From then on no event sets the flag again, records a sample or prints
  a report, and the tick is not re-armed: at most one tick timer is left, and when it
  fires none is.
\<close>

lemma first_session_ends_on_timeout:
  fixes s0 :: event_loop_monitor and t0 :: real and evs :: "loop_event list"
  defines "st \<equiv> run_loop evs (startMonitoring t0 s0)"
  assumes "timers s0 = []"
  shows "(list_all (\<lambda>ev. time_of ev < t0 + 30000) evs \<longrightarrow> monitoring st \<and> \<not> stopped st) \<and>
         (\<not> stopped st \<longrightarrow>
            monitoring st \<and>
            list_ex (\<lambda>t. callback t = AutoStop \<and> due t = t0 + 30000) (timers st)) \<and>
         (\<forall>i now. i < length (timers st) \<and> callback (timers st ! i) = AutoStop \<and>
                  due (timers st ! i) \<le> now \<longrightarrow>
                  stopped (fire i now st) \<and> \<not> monitoring (fire i now st)) \<and>
         (stopped st \<longrightarrow>
            \<not> monitoring st \<and> ticks_pending st \<le> 1 \<and>
            (\<forall>more. stopped (run_loop more st) \<and> \<not> monitoring (run_loop more st) \<and>
                    lagHistory (run_loop more st) = lagHistory st \<and>
                    console (run_loop more st) = console st \<and>
                    ticks_pending (run_loop more st) \<le> ticks_pending st) \<and>
            (\<forall>i now. i < length (timers st) \<and> callback (timers st ! i) = MonitorTick \<and>
                     due (timers st ! i) \<le> now \<longrightarrow>
                     ticks_pending (fire i now st) = 0))"
proof -
  have start: "session_inv t0 (startMonitoring t0 s0)"
    using assms(2) by (rule session_inv_start)
  have inv: "session_inv t0 st"
    unfolding st_def using start by (rule session_inv_run)
  have 1: "list_all (\<lambda>ev. time_of ev < t0 + 30000) evs \<longrightarrow> monitoring st \<and> \<not> stopped st"
  proof
    assume "list_all (\<lambda>ev. time_of ev < t0 + 30000) evs"
    with start have "monitoring st"
      unfolding st_def by (intro run_keeps_running) (simp_all add: startMonitoring_fields)
    with inv show "monitoring st \<and> \<not> stopped st"
      by (simp add: session_inv_def)
  qed
  have 2: "\<not> stopped st \<longrightarrow>
            monitoring st \<and>
            list_ex (\<lambda>t. callback t = AutoStop \<and> due t = t0 + 30000) (timers st)"
    using inv by (auto simp: session_inv_def list_all_iff list_ex_iff)
  have 3: "\<forall>i now. i < length (timers st) \<and> callback (timers st ! i) = AutoStop \<and>
                  due (timers st ! i) \<le> now \<longrightarrow>
                  stopped (fire i now st) \<and> \<not> monitoring (fire i now st)"
    using fire_stop_timer [OF inv] by blast
  have 4: "stopped st \<longrightarrow>
            \<not> monitoring st \<and> ticks_pending st \<le> 1 \<and>
            (\<forall>more. stopped (run_loop more st) \<and> \<not> monitoring (run_loop more st) \<and>
                    lagHistory (run_loop more st) = lagHistory st \<and>
                    console (run_loop more st) = console st \<and>
                    ticks_pending (run_loop more st) \<le> ticks_pending st) \<and>
            (\<forall>i now. i < length (timers st) \<and> callback (timers st ! i) = MonitorTick \<and>
                     due (timers st ! i) \<le> now \<longrightarrow>
                     ticks_pending (fire i now st) = 0)"
  proof (intro impI conjI allI)
    assume s: "stopped st"
    with inv show "\<not> monitoring st" and "ticks_pending st \<le> 1"
      by (simp_all add: session_inv_def)
    fix more
    from run_after_stop [OF inv s, of more]
    show "stopped (run_loop more st)" and "\<not> monitoring (run_loop more st)"
      and "lagHistory (run_loop more st) = lagHistory st"
      and "console (run_loop more st) = console st"
      and "ticks_pending (run_loop more st) \<le> ticks_pending st"
      by blast+
  next
    fix i now
    assume s: "stopped st"
      and "i < length (timers st) \<and> callback (timers st ! i) = MonitorTick \<and>
           due (timers st ! i) \<le> now"
    with fire_last_tick [OF inv s, of i now] show "ticks_pending (fire i now st) = 0"
      by blast
  qed
  from 1 2 3 4 show ?thesis by blast
qed

lemma early_state:
  "run_loop early_events (startMonitoring 0 new_monitor) =
     \<lparr>monitoring = True, startTime = 0, lastCheck = 6000, lagHistory = [- 16, 5984],
      timers = [\<lparr>due = 2000, callback = NextTickInterval, repeat = Some 2000\<rparr>,
                \<lparr>due = 2000, callback = MicrotaskInterval, repeat = Some 2000\<rparr>,
                \<lparr>due = 30000, callback = AutoStop, repeat = None\<rparr>,
                \<lparr>due = 0, callback = NestedImmediate, repeat = None\<rparr>,
                \<lparr>due = 7000, callback = MonitorTick, repeat = None\<rparr>],
      console = [\<lparr>lag = - 16, avgLag = - 16, minLag = - 16, maxLag = - 16, uptime = 0\<rparr>,
                 \<lparr>lag = 5984, avgLag = 2984, minLag = - 16, maxLag = 5984, uptime = 6\<rparr>],
      stopped = False\<rparr>"
  by (simp add: early_events_def session_eval Math_min_def Math_max_def)

lemma first_session_ends_on_timeout_example:
  "timers new_monitor = [] \<and>
   list_all (\<lambda>ev. time_of ev < 0 + 30000) early_events \<and>
   monitoring (run_loop early_events (startMonitoring 0 new_monitor)) \<and>
   \<not> stopped (run_loop early_events (startMonitoring 0 new_monitor)) \<and>
   callback (timers (run_loop early_events (startMonitoring 0 new_monitor)) ! 2) = AutoStop \<and>
   due (timers (run_loop early_events (startMonitoring 0 new_monitor)) ! 2) = 30000 \<and>
   list_ex (\<lambda>t. callback t = AutoStop \<and> due t = 0 + 30000)
     (timers (run_loop early_events (startMonitoring 0 new_monitor))) \<and>
   stopped (fire 2 30000 (run_loop early_events (startMonitoring 0 new_monitor))) \<and>
   stopped (run_loop (early_events @ [Fire 2 30000]) (startMonitoring 0 new_monitor)) \<and>
   callback (timers (run_loop (early_events @ [Fire 2 30000]) (startMonitoring 0 new_monitor)) ! 3)
     = MonitorTick \<and>
   ticks_pending (fire 3 30000
     (run_loop (early_events @ [Fire 2 30000]) (startMonitoring 0 new_monitor))) = 0 \<and>
   lagHistory (run_loop [Fire 3 30000, Fire 0 32000]
     (run_loop (early_events @ [Fire 2 30000]) (startMonitoring 0 new_monitor))) = [- 16, 5984]"
proof -
  let ?start = "startMonitoring 0 new_monitor"
  let ?running = "run_loop early_events ?start"
  let ?ended = "run_loop (early_events @ [Fire 2 30000]) ?start"
  have empty: "timers new_monitor = []"
    by (simp add: new_monitor_def)
  have early: "list_all (\<lambda>ev. time_of ev < 0 + 30000) early_events"
    by (simp add: early_events_def)
  have stop_timer: "2 < length (timers ?running)"
    "callback (timers ?running ! 2) = AutoStop" "due (timers ?running ! 2) = 30000"
    by (simp_all add: early_state)
  have ended: "?ended = fire 2 30000 ?running"
    by (simp add: run_loop_def)
  note running = first_session_ends_on_timeout [OF empty, of 0 early_events]
  from running early have r: "monitoring ?running" "\<not> stopped ?running"
    by blast+
  from running r(2) have armed: "list_ex (\<lambda>t. callback t = AutoStop \<and> due t = 0 + 30000)
     (timers ?running)"
    by blast
  from running stop_timer have s: "stopped (fire 2 30000 ?running)"
    by simp
  then have s': "stopped ?ended"
    by (simp only: ended)
  have tick_timer: "3 < length (timers ?ended)"
    "callback (timers ?ended ! 3) = MonitorTick" "due (timers ?ended ! 3) \<le> 30000"
    "lagHistory ?ended = [- 16, 5984]"
    by (simp_all add: ended early_state fire_def)
  note after = first_session_ends_on_timeout [OF empty, of 0 "early_events @ [Fire 2 30000]"]
  from after s' tick_timer have last: "ticks_pending (fire 3 30000 ?ended) = 0"
    by blast
  from after s' have "lagHistory (run_loop [Fire 3 30000, Fire 0 32000] ?ended) = lagHistory ?ended"
    by blast
  with tick_timer have hist: "lagHistory (run_loop [Fire 3 30000, Fire 0 32000] ?ended) = [- 16, 5984]"
    by simp
  from empty early r stop_timer armed s s' tick_timer last hist show ?thesis
    by blast
qed

section \<open>Proofs: the pool scheduler\<close>

lemma pool_worker_on_task_eq: "pool_worker_on_task cpu t = PostMessage (task_result cpu t)"
  by (simp add: pool_worker_on_task_def task_result_def split: sum.splits)

lemma find_idle_pool: "0 < P \<Longrightarrow> find_idle (initializeWorkerPool P) = Some 0"
  by (simp add: initializeWorkerPool_def upt_conv_Cons)

lemma find_idle_empty: "find_idle (initializeWorkerPool 0) = None"
  by (simp add: initializeWorkerPool_def)

lemma pool_nth: "i < P \<Longrightarrow> initializeWorkerPool P ! i = \<lparr>busy = False, worker_id = i, listener = None\<rparr>"
  by (simp add: initializeWorkerPool_def)

lemma pool_length [simp]: "length (initializeWorkerPool P) = P"
  by (simp add: initializeWorkerPool_def)

lemma fill_snoc:
  "fill cpu n (ts @ [t]) = array_set (fill cpu n ts) (task_id t) (task_result cpu t)"
  by (simp add: fill_def)

lemma dispatch_first:
  assumes "0 < P"
  shows "processNextTask \<lparr>results = rs, pendingTasks = t # rest,
            workerPool = initializeWorkerPool P, settled = s, poll_timers = n\<rparr> =
         \<lparr>results = rs, pendingTasks = rest,
            workerPool = (initializeWorkerPool P)
              [0 := \<lparr>busy = True, worker_id = 0, listener = Some t\<rparr>],
            settled = s, poll_timers = n\<rparr>"
  using assms by (simp add: processNextTask_def find_idle_pool pool_nth)

lemma start_state:
  assumes "0 < P"
  shows "processTasksWithPool (initializeWorkerPool P) tasks = state_after cpu P tasks 0"
proof (cases tasks)
  case Nil
  then show ?thesis
    by (simp add: processTasksWithPool_def processNextTask_def resolve_def state_after_def fill_def)
next
  case (Cons t rest)
  then show ?thesis
    unfolding processTasksWithPool_def
    by (simp add: dispatch_first [OF assms] state_after_def fill_def)
qed

lemma start_state_empty:
  "processTasksWithPool (initializeWorkerPool P) [] = state_after cpu P [] 0"
  by (simp add: processTasksWithPool_def processNextTask_def resolve_def state_after_def fill_def)

lemma completion_advances:
  assumes P: "0 < P" and k: "k < length tasks"
  shows "step cpu (Completion 0) (state_after cpu P tasks k) = state_after cpu P tasks (Suc k)"
proof -
  let ?pool = "initializeWorkerPool P"
  let ?rs = "fill cpu (length tasks) (take (Suc k) tasks)"
  have restore: "?pool[0 := \<lparr>busy = False, worker_id = 0, listener = None\<rparr>] = ?pool"
    using P by (simp add: list_update_same_conv pool_nth)
  have stored: "store_result 0 (tasks ! k) (task_result cpu (tasks ! k)) (state_after cpu P tasks k) =
          \<lparr>results = ?rs, pendingTasks = drop (Suc k) tasks, workerPool = ?pool,
           settled = None, poll_timers = 0\<rparr>"
    using P k by (simp add: store_result_def state_after_def take_Suc_conv_app_nth fill_snoc restore)
  have step_eq: "step cpu (Completion 0) (state_after cpu P tasks k) =
          processNextTask \<lparr>results = ?rs, pendingTasks = drop (Suc k) tasks, workerPool = ?pool,
           settled = None, poll_timers = 0\<rparr>"
    unfolding stored [symmetric]
    using P k by (simp add: step_def state_after_def pool_worker_on_task_eq)
  show ?thesis
  proof (cases "Suc k < length tasks")
    case True
    then have "drop (Suc k) tasks = tasks ! Suc k # drop (Suc (Suc k)) tasks"
      by (simp add: Cons_nth_drop_Suc)
    then show ?thesis
      unfolding step_eq using True by (simp add: dispatch_first [OF P] state_after_def)
  next
    case False
    with k have "Suc k = length tasks" by simp
    then show ?thesis
      unfolding step_eq
      by (simp add: processNextTask_def resolve_def state_after_def)
  qed
qed

lemma other_events_idle:
  assumes "ev \<noteq> Completion 0 \<or> length tasks \<le> k"
  shows "step cpu ev (state_after cpu P tasks k) = state_after cpu P tasks k"
proof (cases ev)
  case Poll
  then show ?thesis by (simp add: step_def state_after_def)
next
  case (Completion i)
  show ?thesis
  proof (cases "i < P")
    case False
    then show ?thesis
      by (simp add: Completion step_def state_after_def)
  next
    case True
    have "listener (workerPool (state_after cpu P tasks k) ! i) = None"
    proof (cases "length tasks \<le> k")
      case True
      with \<open>i < P\<close> show ?thesis by (simp add: state_after_def pool_nth)
    next
      case False
      with assms Completion have "i \<noteq> 0" by simp
      with \<open>i < P\<close> show ?thesis by (simp add: state_after_def pool_nth)
    qed
    then show ?thesis
      by (simp add: Completion step_def)
  qed
qed

lemma step_state_after:
  assumes "0 < P"
  shows "\<exists>k'. step cpu ev (state_after cpu P tasks k) = state_after cpu P tasks k'"
proof (cases "ev = Completion 0 \<and> k < length tasks")
  case True
  then show ?thesis
    using completion_advances [OF assms, of k tasks cpu] by auto
next
  case False
  then have "ev \<noteq> Completion 0 \<or> length tasks \<le> k" by auto
  from other_events_idle [OF this] show ?thesis by blast
qed

lemma run_state_after:
  assumes "0 < P"
  shows "\<exists>k'. run cpu evs (state_after cpu P tasks k) = state_after cpu P tasks k'"
proof (induction evs arbitrary: k)
  case Nil
  show ?case by (auto simp: run_def)
next
  case (Cons ev evs)
  from step_state_after [OF assms] obtain j
    where "step cpu ev (state_after cpu P tasks k) = state_after cpu P tasks j" by blast
  with Cons [of j] show ?case by (simp add: run_def)
qed

lemma run_completions:
  assumes "0 < P" and "k + n \<le> length tasks"
  shows "run cpu (replicate n (Completion 0)) (state_after cpu P tasks k) =
         state_after cpu P tasks (k + n)"
  using assms(2)
proof (induction n arbitrary: k)
  case 0
  show ?case by (simp add: run_def)
next
  case (Suc n)
  then have "k < length tasks" by simp
  from completion_advances [OF assms(1) this, of cpu] Suc.IH [of "Suc k"] Suc.prems
  show ?case by (simp add: run_def)
qed

lemma run_fixed:
  assumes "\<And>ev. step cpu ev s = s"
  shows "run cpu evs s = s"
  by (induction evs) (simp_all add: run_def assms)

lemma run_empty_batch:
  "run cpu evs (state_after cpu P [] k) = state_after cpu P [] k"
proof (induction evs)
  case Nil
  show ?case by (simp add: run_def)
next
  case (Cons ev evs)
  have "step cpu ev (state_after cpu P [] k) = state_after cpu P [] k"
    by (rule other_events_idle) simp
  with Cons show ?case by (simp add: run_def)
qed

text \<open>With no worker and a task pending, every poll re-arms itself and nothing else happens.\<close>

lemma no_worker_polls:
  assumes "tasks \<noteq> []"
  shows "run cpu evs (processTasksWithPool (initializeWorkerPool 0) tasks) =
         \<lparr>results = replicate (length tasks) None, pendingTasks = tasks,
          workerPool = [], settled = None, poll_timers = 1\<rparr>"
proof -
  let ?stuck = "\<lparr>results = replicate (length tasks) None, pendingTasks = tasks,
          workerPool = [], settled = None, poll_timers = 1\<rparr> :: 'a scheduler"
  from assms obtain t rest where tasks: "tasks = t # rest" by (cases tasks) auto
  have init: "processTasksWithPool (initializeWorkerPool 0) tasks = ?stuck"
    by (simp add: processTasksWithPool_def processNextTask_def initializeWorkerPool_def tasks)
  have st: "step cpu ev ?stuck = ?stuck" for ev
    by (cases ev) (simp_all add: step_def processNextTask_def tasks)
  have "run cpu evs ?stuck = ?stuck"
    by (rule run_fixed) (rule st)
  with init show ?thesis by (simp only:)
qed

lemma array_set_inside:
  "i < length xs \<Longrightarrow> array_set xs i v = xs[i := Some v]"
  by (simp add: array_set_def)

lemma array_set_nth_same: "array_set xs i v ! i = Some v"
  by (simp add: array_set_def nth_append)

lemma fill_length:
  "\<forall>t \<in> set ts. task_id t < n \<Longrightarrow> length (fill cpu n ts) = n"
proof (induction ts rule: rev_induct)
  case Nil
  show ?case by (simp add: fill_def)
next
  case (snoc t ts)
  then show ?case by (simp add: fill_snoc array_set_inside)
qed

lemma fill_nth:
  assumes "distinct (map task_id ts)" and "\<forall>t \<in> set ts. task_id t < n" and "t \<in> set ts"
  shows "fill cpu n ts ! task_id t = Some (task_result cpu t)"
  using assms
proof (induction ts rule: rev_induct)
  case Nil
  then show ?case by simp
next
  case (snoc x ts)
  have len: "length (fill cpu n ts) = n"
    using snoc.prems(2) by (simp add: fill_length)
  have x: "task_id x < n"
    using snoc.prems(2) by simp
  show ?case
  proof (cases "t = x")
    case True
    then show ?thesis
      using len x by (simp add: fill_snoc array_set_inside)
  next
    case False
    with snoc.prems(3) have t: "t \<in> set ts"
      by simp
    from snoc.prems(1) have "task_id x \<notin> task_id ` set ts"
      by simp
    with t have ne: "task_id t \<noteq> task_id x"
      by (metis imageI)
    have "fill cpu n ts ! task_id t = Some (task_result cpu t)"
      using snoc.IH snoc.prems t by simp
    then show ?thesis
      using len x ne by (simp add: fill_snoc array_set_inside)
  qed
qed

lemma settled_state_after:
  "settled (state_after cpu P tasks k) = Some out \<Longrightarrow>
     out = Resolved (fill cpu (length tasks) tasks)"
  by (simp add: state_after_def split: if_splits)

lemma resolved_is_fill:
  assumes "settled (run cpu evs (processTasksWithPool (initializeWorkerPool P) tasks)) = Some out"
  shows "out = Resolved (fill cpu (length tasks) tasks)"
proof (cases "0 < P")
  case True
  from run_state_after [OF True] obtain k where
    "run cpu evs (state_after cpu P tasks 0) = state_after cpu P tasks k" by blast
  with assms show ?thesis
    by (simp add: start_state [OF True, of tasks cpu] settled_state_after)
next
  case False
  then have P: "P = 0" by simp
  show ?thesis
  proof (cases "tasks = []")
    case True
    with assms have "settled (state_after cpu P [] 0) = Some out"
      by (simp add: start_state_empty [of P cpu] run_empty_batch)
    from settled_state_after [OF this] True show ?thesis
      by simp
  next
    case False
    from no_worker_polls [OF this, of cpu evs] assms P show ?thesis by simp
  qed
qed

lemma all_completions_resolve:
  assumes "0 < P"
  shows "settled (run cpu (replicate (length tasks) (Completion 0))
            (processTasksWithPool (initializeWorkerPool P) tasks)) =
         Some (Resolved (fill cpu (length tasks) tasks))"
  using run_completions [OF assms, of 0 "length tasks" tasks cpu]
  by (simp add: start_state [OF assms, of tasks cpu] state_after_def)

text \<open>
  C1: a batch whose ids are the numbers \<open>0..N-1\<close>, in any order of submission, over a
  pool of \<open>P\<close> workers. Whatever events happen and in whatever order (which worker
  answers when, which poll fires), if the promise is settled it is resolved with an array
  of length \<open>N\<close> whose element at each task's id is the message produced for that task;
  and with at least one worker the promise does resolve, once the \<open>N\<close> completions have
  arrived.
\<close>

theorem processTasksWithPool_results_by_id:
  assumes "distinct (map task_id tasks)" and "\<forall>t \<in> set tasks. task_id t < length tasks"
  shows "(\<forall>evs out.
            settled (run cpu evs (processTasksWithPool (initializeWorkerPool P) tasks)) = Some out \<longrightarrow>
            (\<exists>rs. out = Resolved rs \<and> length rs = length tasks \<and>
                  (\<forall>t \<in> set tasks. rs ! task_id t = Some (task_result cpu t)))) \<and>
         (1 \<le> P \<longrightarrow>
            (\<exists>rs. settled (run cpu (replicate (length tasks) (Completion 0))
                      (processTasksWithPool (initializeWorkerPool P) tasks)) = Some (Resolved rs)))"
proof (intro conjI allI impI)
  fix evs out
  assume "settled (run cpu evs (processTasksWithPool (initializeWorkerPool P) tasks)) = Some out"
  then have "out = Resolved (fill cpu (length tasks) tasks)"
    by (rule resolved_is_fill)
  moreover have "length (fill cpu (length tasks) tasks) = length tasks"
    using assms(2) by (rule fill_length)
  moreover have "\<forall>t \<in> set tasks. fill cpu (length tasks) tasks ! task_id t = Some (task_result cpu t)"
    using fill_nth [OF assms] by blast
  ultimately show "\<exists>rs. out = Resolved rs \<and> length rs = length tasks \<and>
                  (\<forall>t \<in> set tasks. rs ! task_id t = Some (task_result cpu t))"
    by blast
next
  assume "1 \<le> P"
  then have "0 < P" by simp
  from all_completions_resolve [OF this]
  show "\<exists>rs. settled (run cpu (replicate (length tasks) (Completion 0))
                      (processTasksWithPool (initializeWorkerPool P) tasks)) = Some (Resolved rs)"
    by blast
qed

lemmas scheduler_eval =
  run_def processTasksWithPool_def initializeWorkerPool_def
  processNextTask_def step_def store_result_def array_set_def resolve_def
  pool_worker_on_task_def processTask_def task_result_def upt_conv_Cons

theorem processTasksWithPool_results_by_id_witness:
  "distinct (map task_id permuted_batch) \<and>
   map task_id permuted_batch = [2, 0, 1] \<and>
   (1::nat) \<le> 2 \<and>
   settled (run sample_cpu [Completion 1, Completion 0, Poll, Completion 0, Completion 0]
      (processTasksWithPool (initializeWorkerPool 2) permuted_batch)) =
     Some (Resolved [Some (Result 1000), Some (Result 1500), Some (Result 2000)]) \<and>
   (\<exists>rs. settled (run sample_cpu (replicate (length permuted_batch) (Completion 0))
      (processTasksWithPool (initializeWorkerPool 2) permuted_batch)) = Some (Resolved rs) \<and>
      length rs = 3 \<and> rs ! 2 = Some (Result 2000))"
proof -
  have d: "distinct (map task_id permuted_batch)"
    by (simp add: permuted_batch_def)
  have b: "\<forall>t \<in> set permuted_batch. task_id t < length permuted_batch"
    by (simp add: permuted_batch_def)
  have ids: "map task_id permuted_batch = [2, 0, 1]"
    by (simp add: permuted_batch_def)
  have p: "(1::nat) \<le> 2" by simp
  have e: "settled (run sample_cpu [Completion 1, Completion 0, Poll, Completion 0, Completion 0]
      (processTasksWithPool (initializeWorkerPool 2) permuted_batch)) =
     Some (Resolved [Some (Result 1000), Some (Result 1500), Some (Result 2000)])"
    by (simp add: scheduler_eval permuted_batch_def sample_cpu_def)
  note inst = processTasksWithPool_results_by_id [OF d b, of sample_cpu 2]
  from inst p obtain rs where
    r: "settled (run sample_cpu (replicate (length permuted_batch) (Completion 0))
      (processTasksWithPool (initializeWorkerPool 2) permuted_batch)) = Some (Resolved rs)"
    by blast
  with inst have "length rs = length permuted_batch \<and>
      (\<forall>t \<in> set permuted_batch. rs ! task_id t = Some (task_result sample_cpu t))"
    by blast
  then have "length rs = 3 \<and> rs ! 2 = Some (Result 2000)"
    by (simp add: permuted_batch_def task_result_def processTask_def sample_cpu_def)
  with d ids p e r show ?thesis
    by blast
qed

lemma settled_processNextTask:
  "settled (processNextTask st) =
     (if pendingTasks st = [] \<and> settled st = None then Some (Resolved (results st))
      else settled st)"
  by (simp add: processNextTask_def resolve_def split: list.splits option.splits)

lemma settled_store_result [simp]: "settled (store_result i t r st) = settled st"
  by (simp add: store_result_def)

lemma pendingTasks_store_result [simp]: "pendingTasks (store_result i t r st) = pendingTasks st"
  by (simp add: store_result_def)

lemma step_not_rejected:
  "settled st \<noteq> Some (Rejected e) \<Longrightarrow> settled (step cpu ev st) \<noteq> Some (Rejected e)"
  by (auto simp: step_def settled_processNextTask pool_worker_on_task_eq
      split: event.splits option.splits)

lemma run_not_rejected:
  "settled st \<noteq> Some (Rejected e) \<Longrightarrow> settled (run cpu evs st) \<noteq> Some (Rejected e)"
proof (induction evs arbitrary: st)
  case Nil
  then show ?case by (simp add: run_def)
next
  case (Cons ev evs)
  from Cons.IH [OF step_not_rejected [OF Cons.prems]] show ?case
    by (simp add: run_def)
qed

lemma pending_processNextTask:
  "\<exists>ts. pendingTasks st = ts @ pendingTasks (processNextTask st)"
proof (cases "pendingTasks st")
  case Nil
  then show ?thesis
    by (simp add: processNextTask_def resolve_def split: option.splits)
next
  case (Cons t rest)
  show ?thesis
  proof (cases "find_idle (workerPool st)")
    case None
    with Cons show ?thesis by (simp add: processNextTask_def)
  next
    case (Some i)
    with Cons have "pendingTasks st = [t] @ pendingTasks (processNextTask st)"
      by (simp add: processNextTask_def)
    then show ?thesis by blast
  qed
qed

lemma pending_step: "\<exists>ts. pendingTasks st = ts @ pendingTasks (step cpu ev st)"
proof -
  have self: "\<exists>ts. pendingTasks st = ts @ pendingTasks st" by simp
  show ?thesis
  proof (cases ev)
    case Poll
    show ?thesis
    proof (cases "0 < poll_timers st")
      case True
      with pending_processNextTask [of "st\<lparr>poll_timers := poll_timers st - 1\<rparr>"] Poll
      show ?thesis by (simp add: step_def)
    next
      case False
      with Poll self show ?thesis by (simp add: step_def)
    qed
  next
    case (Completion i)
    show ?thesis
    proof (cases "i < length (workerPool st) \<and> listener (workerPool st ! i) \<noteq> None")
      case True
      then obtain t where t: "listener (workerPool st ! i) = Some t" by auto
      from pending_processNextTask [of "store_result i t (task_result cpu t) st"] True t Completion
      show ?thesis by (simp add: step_def pool_worker_on_task_eq)
    next
      case False
      with Completion self show ?thesis by (auto simp: step_def)
    qed
  qed
qed

lemma pending_run: "\<exists>ts. pendingTasks st = ts @ pendingTasks (run cpu evs st)"
proof (induction evs arbitrary: st)
  case Nil
  show ?case by (simp add: run_def)
next
  case (Cons ev evs)
  from pending_step obtain ts where 1: "pendingTasks st = ts @ pendingTasks (step cpu ev st)"
    by blast
  from Cons [of "step cpu ev st"] obtain us
    where 2: "pendingTasks (step cpu ev st) = us @ pendingTasks (run cpu evs (step cpu ev st))"
    by blast
  from 1 2 have "pendingTasks st = (ts @ us) @ pendingTasks (run cpu (ev # evs) st)"
    by (simp add: run_def)
  then show ?case by blast
qed

lemma pending_start:
  "\<exists>ts. tasks = ts @ pendingTasks (processTasksWithPool pool tasks :: 'v scheduler)"
  using pending_processNextTask
    [of "\<lparr>results = replicate (length tasks) None, pendingTasks = tasks, workerPool = pool,
          settled = None, poll_timers = 0\<rparr> :: 'v scheduler"]
  by (simp add: processTasksWithPool_def)

lemma start_not_rejected:
  "settled (processTasksWithPool pool tasks) \<noteq> Some (Rejected e)"
  by (simp add: processTasksWithPool_def settled_processNextTask)

lemma task_result_error: "processTask cpu t = Inl e \<Longrightarrow> task_result cpu t = ErrorObject e"
  by (simp add: task_result_def)

text \<open>
  C2, against the claim: in a batch of three tasks where the task with id 1 throws
  (its type is unknown to \<^verbatim>\<open>processTask\<close>), the promise is resolved, not rejected, once
  the three completions have arrived, and the resolved array holds the results of the
  tasks 0 and 2 and the error object of task 1.
\<close>

theorem fail_fast_counterexample:
  "processTask sample_cpu (failing_batch ! 1) = Inl ''Unknown task type: io'' \<and>
   settled (run sample_cpu (replicate 3 (Completion 0))
      (processTasksWithPool (initializeWorkerPool 2) failing_batch)) =
     Some (Resolved [Some (Result 1000), Some (ErrorObject ''Unknown task type: io''),
                     Some (Result 2000)])"
  by (simp add: scheduler_eval failing_batch_def sample_cpu_def numeral_3_eq_3)

text \<open>
  C2 as amended: \<^verbatim>\<open>processTasksWithPool\<close> never rejects. Whatever the pool, the batch
  and the events, the promise is never settled as rejected and no task returns to the
  queue (the queue only loses its head: no retry). When a task of a batch with ids
  \<open>0..N-1\<close> throws and the pool has at least one worker, the \<open>N\<close> completions resolve
  the promise with the complete array: the throwing task's slot holds the worker's
  error object, every slot holds the message of its task.
\<close>

theorem processTasksWithPool_never_rejects:
  "(\<forall>evs e. settled (run cpu evs (processTasksWithPool pool tasks)) \<noteq> Some (Rejected e)) \<and>
   (\<forall>evs. \<exists>ts. tasks = ts @ pendingTasks (run cpu evs (processTasksWithPool pool tasks))) \<and>
   (processTask cpu t = Inl e \<and> t \<in> set tasks \<and> distinct (map task_id tasks) \<and>
    (\<forall>u \<in> set tasks. task_id u < length tasks) \<and> 1 \<le> P \<longrightarrow>
      (\<exists>rs. settled (run cpu (replicate (length tasks) (Completion 0))
                 (processTasksWithPool (initializeWorkerPool P) tasks)) = Some (Resolved rs) \<and>
            length rs = length tasks \<and>
            rs ! task_id t = Some (ErrorObject e) \<and>
            (\<forall>u \<in> set tasks. rs ! task_id u = Some (task_result cpu u))))"
proof (intro conjI allI impI)
  fix evs e
  show "settled (run cpu evs (processTasksWithPool pool tasks)) \<noteq> Some (Rejected e)"
    by (rule run_not_rejected) (rule start_not_rejected)
next
  fix evs
  from pending_start obtain ts
    where 1: "tasks = ts @ pendingTasks (processTasksWithPool pool tasks :: 'a scheduler)"
    by blast
  from pending_run obtain us
    where 2: "pendingTasks (processTasksWithPool pool tasks :: 'a scheduler) =
              us @ pendingTasks (run cpu evs (processTasksWithPool pool tasks))"
    by blast
  from 1 2 have "tasks = (ts @ us) @ pendingTasks (run cpu evs (processTasksWithPool pool tasks))"
    by simp
  then show "\<exists>ts. tasks = ts @ pendingTasks (run cpu evs (processTasksWithPool pool tasks))"
    by blast
next
  assume a: "processTask cpu t = Inl e \<and> t \<in> set tasks \<and> distinct (map task_id tasks) \<and>
    (\<forall>u \<in> set tasks. task_id u < length tasks) \<and> 1 \<le> P"
  let ?rs = "fill cpu (length tasks) tasks"
  from a have P: "0 < P" by simp
  have "settled (run cpu (replicate (length tasks) (Completion 0))
                 (processTasksWithPool (initializeWorkerPool P) tasks)) = Some (Resolved ?rs)"
    by (rule all_completions_resolve [OF P])
  moreover have "length ?rs = length tasks"
    using a by (simp add: fill_length)
  moreover have all: "\<forall>u \<in> set tasks. ?rs ! task_id u = Some (task_result cpu u)"
    using a fill_nth [of tasks "length tasks" _ cpu] by blast
  moreover have "?rs ! task_id t = Some (ErrorObject e)"
    using all a by (simp add: task_result_error)
  ultimately show "\<exists>rs. settled (run cpu (replicate (length tasks) (Completion 0))
                 (processTasksWithPool (initializeWorkerPool P) tasks)) = Some (Resolved rs) \<and>
            length rs = length tasks \<and>
            rs ! task_id t = Some (ErrorObject e) \<and>
            (\<forall>u \<in> set tasks. rs ! task_id u = Some (task_result cpu u))"
    by blast
qed

theorem processTasksWithPool_never_rejects_witness:
  "processTask sample_cpu (failing_batch ! 1) = Inl ''Unknown task type: io'' \<and>
   failing_batch ! 1 \<in> set failing_batch \<and>
   map task_id failing_batch = [0, 1, 2] \<and>
   (1::nat) \<le> 2 \<and>
   settled (run sample_cpu [Completion 0, Poll, Completion 0]
      (processTasksWithPool (initializeWorkerPool 2) failing_batch)) \<noteq>
     Some (Rejected ''Unknown task type: io'') \<and>
   (\<exists>rs. settled (run sample_cpu (replicate (length failing_batch) (Completion 0))
             (processTasksWithPool (initializeWorkerPool 2) failing_batch)) = Some (Resolved rs) \<and>
         length rs = 3 \<and>
         rs ! 0 = Some (Result 1000) \<and>
         rs ! 1 = Some (ErrorObject ''Unknown task type: io'') \<and>
         rs ! 2 = Some (Result 2000))"
proof -
  let ?t = "failing_batch ! 1"
  let ?e = "''Unknown task type: io''"
  have thrown: "processTask sample_cpu ?t = Inl ?e"
    by (simp add: failing_batch_def processTask_def)
  have mem: "?t \<in> set failing_batch"
    by (simp add: failing_batch_def)
  have ids: "map task_id failing_batch = [0, 1, 2]"
    by (simp add: failing_batch_def)
  have d: "distinct (map task_id failing_batch)"
    unfolding ids by simp
  have b: "\<forall>u \<in> set failing_batch. task_id u < length failing_batch"
    by (simp add: failing_batch_def)
  have p: "(1::nat) \<le> 2" by simp
  note inst = processTasksWithPool_never_rejects
    [of sample_cpu "initializeWorkerPool 2" failing_batch ?t ?e 2]
  from inst have nr: "settled (run sample_cpu [Completion 0, Poll, Completion 0]
      (processTasksWithPool (initializeWorkerPool 2) failing_batch)) \<noteq> Some (Rejected ?e)"
    by blast
  from inst thrown mem d b p obtain rs where
    rs: "settled (run sample_cpu (replicate (length failing_batch) (Completion 0))
             (processTasksWithPool (initializeWorkerPool 2) failing_batch)) = Some (Resolved rs)"
      "length rs = length failing_batch"
      "rs ! task_id ?t = Some (ErrorObject ?e)"
      "\<forall>u \<in> set failing_batch. rs ! task_id u = Some (task_result sample_cpu u)"
    by blast
  from rs(2,3,4) have "length rs = 3 \<and> rs ! 0 = Some (Result 1000) \<and>
      rs ! 1 = Some (ErrorObject ?e) \<and> rs ! 2 = Some (Result 2000)"
    by (simp add: failing_batch_def task_result_def processTask_def sample_cpu_def)
  with thrown mem ids p nr rs(1) show ?thesis
    by blast
qed

lemma store_result_effect:
  assumes "i < length (workerPool st)"
  shows "results (store_result i t r st) ! task_id t = Some r"
    and "\<not> busy (workerPool (store_result i t r st) ! i)"
    and "listener (workerPool (store_result i t r st) ! i) = None"
  using assms by (simp_all add: store_result_def array_set_nth_same)

text \<open>
  C9: when the execution of a task throws inside the pool worker (\<open>processTask\<close> yields
  the thrown error's message), the worker posts the ordinary message
  \<^verbatim>\<open>{ error: message }\<close> and emits no \<^verbatim>\<open>'error'\<close> event. The one-shot listener of the
  worker holding that task then stores the error object at \<^verbatim>\<open>results[task.id]\<close>, sets
  the worker idle and goes on with \<^verbatim>\<open>processNextTask\<close>; and for a batch with ids
  \<open>0..N-1\<close> over at least one worker the promise resolves with the error object at the
  task's index.
\<close>

theorem task_error_is_posted_and_stored:
  assumes "processTask cpu t = Inl e"
  shows "pool_worker_on_task cpu t = PostMessage (ErrorObject e) \<and>
         (\<forall>st i. i < length (workerPool st) \<and> listener (workerPool st ! i) = Some t \<longrightarrow>
            step cpu (Completion i) st = processNextTask (store_result i t (ErrorObject e) st) \<and>
            results (store_result i t (ErrorObject e) st) ! task_id t = Some (ErrorObject e) \<and>
            \<not> busy (workerPool (store_result i t (ErrorObject e) st) ! i)) \<and>
         (t \<in> set tasks \<and> distinct (map task_id tasks) \<and>
          (\<forall>u \<in> set tasks. task_id u < length tasks) \<and> 1 \<le> P \<longrightarrow>
            (\<exists>rs. settled (run cpu (replicate (length tasks) (Completion 0))
                      (processTasksWithPool (initializeWorkerPool P) tasks)) = Some (Resolved rs) \<and>
                  rs ! task_id t = Some (ErrorObject e)))"
proof (intro conjI allI impI)
  show posted: "pool_worker_on_task cpu t = PostMessage (ErrorObject e)"
    using assms by (simp add: pool_worker_on_task_def)
  fix st :: "'a scheduler" and i
  assume a: "i < length (workerPool st) \<and> listener (workerPool st ! i) = Some t"
  then show "step cpu (Completion i) st = processNextTask (store_result i t (ErrorObject e) st)"
    by (simp add: step_def posted)
  from a show "results (store_result i t (ErrorObject e) st) ! task_id t = Some (ErrorObject e)"
    by (simp add: store_result_effect)
  from a show "\<not> busy (workerPool (store_result i t (ErrorObject e) st) ! i)"
    by (simp add: store_result_effect)
next
  assume a: "t \<in> set tasks \<and> distinct (map task_id tasks) \<and>
          (\<forall>u \<in> set tasks. task_id u < length tasks) \<and> 1 \<le> P"
  then have P: "0 < P" by simp
  have "fill cpu (length tasks) tasks ! task_id t = Some (task_result cpu t)"
    using a fill_nth [of tasks "length tasks" t cpu] by blast
  then have "fill cpu (length tasks) tasks ! task_id t = Some (ErrorObject e)"
    using assms by (simp add: task_result_def)
  with all_completions_resolve [OF P, of cpu tasks]
  show "\<exists>rs. settled (run cpu (replicate (length tasks) (Completion 0))
                      (processTasksWithPool (initializeWorkerPool P) tasks)) = Some (Resolved rs) \<and>
                  rs ! task_id t = Some (ErrorObject e)"
    by blast
qed

theorem task_error_is_posted_and_stored_witness:
  "processTask sample_cpu (failing_batch ! 1) = Inl ''Unknown task type: io'' \<and>
   pool_worker_on_task sample_cpu (failing_batch ! 1) =
     PostMessage (ErrorObject ''Unknown task type: io'') \<and>
   (0::nat) < length (workerPool before_failure) \<and>
   listener (workerPool before_failure ! 0) = Some (failing_batch ! 1) \<and>
   results (store_result 0 (failing_batch ! 1) (ErrorObject ''Unknown task type: io'')
      before_failure) = [Some (Result 1000), Some (ErrorObject ''Unknown task type: io''), None] \<and>
   \<not> busy (workerPool (store_result 0 (failing_batch ! 1)
      (ErrorObject ''Unknown task type: io'') before_failure) ! 0) \<and>
   pendingTasks (step sample_cpu (Completion 0) before_failure) = [] \<and>
   (\<exists>rs. settled (run sample_cpu (replicate (length failing_batch) (Completion 0))
             (processTasksWithPool (initializeWorkerPool 2) failing_batch)) = Some (Resolved rs) \<and>
         rs ! 1 = Some (ErrorObject ''Unknown task type: io''))"
proof -
  let ?t = "failing_batch ! 1"
  let ?e = "''Unknown task type: io''"
  have thrown: "processTask sample_cpu ?t = Inl ?e"
    by (simp add: failing_batch_def processTask_def)
  have bf: "before_failure =
      \<lparr>results = [Some (Result 1000), None, None],
       pendingTasks = [failing_batch ! 2],
       workerPool = [\<lparr>busy = True, worker_id = 0, listener = Some ?t\<rparr>,
                     \<lparr>busy = False, worker_id = 1, listener = None\<rparr>],
       settled = None, poll_timers = 0\<rparr>"
    by (simp add: before_failure_def scheduler_eval failing_batch_def sample_cpu_def)
  have len: "(0::nat) < length (workerPool before_failure)"
    and lis: "listener (workerPool before_failure ! 0) = Some ?t"
    by (simp_all add: bf)
  have mem: "?t \<in> set failing_batch"
    by (simp add: failing_batch_def)
  have d: "distinct (map task_id failing_batch)"
    by (simp add: failing_batch_def)
  have b: "\<forall>u \<in> set failing_batch. task_id u < length failing_batch"
    by (simp add: failing_batch_def)
  have p: "(1::nat) \<le> 2" by simp
  note inst = task_error_is_posted_and_stored [OF thrown, of failing_batch 2]
  from inst have posted: "pool_worker_on_task sample_cpu ?t = PostMessage (ErrorObject ?e)"
    by blast
  from inst len lis
  have st: "step sample_cpu (Completion 0) before_failure =
              processNextTask (store_result 0 ?t (ErrorObject ?e) before_failure)"
    and idle: "\<not> busy (workerPool (store_result 0 ?t (ErrorObject ?e) before_failure) ! 0)"
    by blast+
  have stored: "results (store_result 0 ?t (ErrorObject ?e) before_failure) =
                  [Some (Result 1000), Some (ErrorObject ?e), None]"
    by (simp add: bf store_result_def array_set_def failing_batch_def)
  have pend: "pendingTasks (step sample_cpu (Completion 0) before_failure) = []"
    unfolding st by (simp add: bf store_result_def processNextTask_def)
  from inst mem d b p obtain rs where
    "settled (run sample_cpu (replicate (length failing_batch) (Completion 0))
             (processTasksWithPool (initializeWorkerPool 2) failing_batch)) = Some (Resolved rs)"
    "rs ! task_id ?t = Some (ErrorObject ?e)"
    by blast
  then have "\<exists>rs. settled (run sample_cpu (replicate (length failing_batch) (Completion 0))
             (processTasksWithPool (initializeWorkerPool 2) failing_batch)) = Some (Resolved rs) \<and>
         rs ! 1 = Some (ErrorObject ?e)"
    by (auto simp: failing_batch_def)
  with thrown posted len lis stored idle pend show ?thesis
    by blast
qed

section \<open>Proofs: the concurrent-update mode\<close>

lemma updateLoop_unfold:
  "updateLoop rnd len updateCount i n trace =
     (if i < updateCount then
        (if 0 \<le> \<lfloor>rnd (2 * i) * real len\<rfloor> \<and> \<lfloor>rnd (2 * i) * real len\<rfloor> < int len
         then updateLoop rnd len updateCount (i + 1) (n + 1)
                (trace @ [AtomicsStore (nat \<lfloor>rnd (2 * i) * real len\<rfloor>) \<lfloor>rnd (2 * i + 1) * 1000\<rfloor>])
         else (Inl ''Invalid atomic access index'', trace))
      else (Inr n, trace))"
  by (subst updateLoop.simps) (simp only: Let_def)

lemma updateLoop_atomic:
  "list_all is_atomic trace \<Longrightarrow>
     list_all is_atomic (snd (updateLoop rnd len updateCount i n trace))"
proof (induction rnd len updateCount i n trace rule: updateLoop.induct)
  case (1 rnd len updateCount i n trace)
  let ?ri = "\<lfloor>rnd (2 * i) * real len\<rfloor>"
  let ?rv = "\<lfloor>rnd (2 * i + 1) * 1000\<rfloor>"
  show ?case
  proof (cases "i < updateCount")
    case False
    then have "updateLoop rnd len updateCount i n trace = (Inr n, trace)"
      by (subst updateLoop_unfold) (simp only: if_False)
    with "1.prems" show ?thesis by simp
  next
    case True
    show ?thesis
    proof (cases "0 \<le> ?ri \<and> ?ri < int len")
      case False
      with True have "updateLoop rnd len updateCount i n trace =
          (Inl ''Invalid atomic access index'', trace)"
        by (subst updateLoop_unfold) (simp only: if_True if_False)
      with "1.prems" show ?thesis by simp
    next
      case ok: True
      have ext: "list_all is_atomic (trace @ [AtomicsStore (nat ?ri) ?rv])"
        using "1.prems" by simp
      have "updateLoop rnd len updateCount i n trace =
          updateLoop rnd len updateCount (i + 1) (n + 1) (trace @ [AtomicsStore (nat ?ri) ?rv])"
        using True ok by (subst updateLoop_unfold) (simp only: if_True simp_thms)
      with "1.IH" [OF True refl refl ok ext] show ?thesis
        by (simp only:)
    qed
  qed
qed

lemma updateSharedMemory_atomic:
  "list_all is_atomic (snd (updateSharedMemory rnd len updateCount workerId))"
  unfolding updateSharedMemory_def by (rule updateLoop_atomic) simp

lemma cpu_worker_update_trace:
  "snd (cpu_worker_update rnd len updateCount workerId) =
   snd (updateSharedMemory rnd len updateCount workerId)"
  by (simp add: cpu_worker_update_def split: prod.splits sum.splits)

lemma interleaved_all:
  "interleaved threads trace \<Longrightarrow> list_all (list_all P) threads \<Longrightarrow> list_all P trace"
proof (induction rule: interleaved.induct)
  case (finished threads)
  show ?case by simp
next
  case (advance i threads x rest trace)
  from advance.hyps(1) advance.prems have here: "list_all P (threads ! i)"
    by (simp add: list_all_length)
  with advance.hyps(2) have x: "P x" and rest: "list_all P rest"
    by simp_all
  have "list_all (list_all P) (threads[i := rest])"
    unfolding list_all_iff
  proof
    fix t assume "t \<in> set (threads[i := rest])"
    then have "t = rest \<or> t \<in> set threads"
      using set_update_subset_insert [of threads i rest] by auto
    with advance.prems rest show "Ball (set t) P"
      by (auto simp: list_all_iff)
  qed
  from advance.IH [OF this] x show ?case
    by simp
qed

lemma atomic_no_plain: "is_atomic op \<Longrightarrow> no_plain_mutation op"
  by (cases op) (simp_all add: no_plain_mutation_def)

lemma worker_traces_atomic:
  "list_all (list_all is_atomic) (worker_traces rnds len count)"
  by (simp add: worker_traces_def list_all_iff cpu_worker_update_trace
      updateSharedMemory_atomic [unfolded list_all_iff])

text \<open>
  C7: in the concurrent-update mode every mutation of the shared buffer is an
  \<^verbatim>\<open>Atomics.store\<close>. For every random sequence, buffer length, update count and worker
  id, the trace of \<^verbatim>\<open>updateSharedMemory\<close> consists of atomic stores only; and in every
  interleaving of the four workers of \<^verbatim>\<open>concurrentUpdates\<close>, followed by the main
  thread's reads, no operation is a plain indexed assignment and every mutating operation
  is atomic.
\<close>

theorem concurrent_updates_atomic_only:
  "list_all is_atomic (snd (updateSharedMemory rnd len updateCount workerId)) \<and>
   (\<forall>trace. concurrentUpdates_trace rnds len count trace \<longrightarrow>
      list_all no_plain_mutation trace \<and>
      list_all is_atomic (filter is_mutation trace))"
proof (intro conjI allI impI)
  show "list_all is_atomic (snd (updateSharedMemory rnd len updateCount workerId))"
    by (rule updateSharedMemory_atomic)
next
  fix trace
  assume "concurrentUpdates_trace rnds len count trace"
  then obtain stores where i: "interleaved (worker_traces rnds len count) stores"
    and t: "trace = stores @ map IndexedRead [0..<10]"
    unfolding concurrentUpdates_trace_def by blast
  from interleaved_all [OF i worker_traces_atomic]
  have a: "list_all is_atomic stores" .
  then have "list_all no_plain_mutation stores"
    by (auto simp: list_all_iff atomic_no_plain)
  moreover have "list_all no_plain_mutation (map IndexedRead [0..<10])"
    by (simp add: list_all_iff no_plain_mutation_def)
  ultimately show "list_all no_plain_mutation trace"
    unfolding t by simp
  have "filter is_mutation (map IndexedRead [0..<10]) = []"
    by (simp add: filter_empty_conv)
  with a show "list_all is_atomic (filter is_mutation trace)"
    unfolding t by (simp add: list_all_iff)
qed

lemma sample_worker_traces:
  "worker_traces sample_rnds 8 8 =
     [[AtomicsStore 0 125, AtomicsStore 2 375],
      [AtomicsStore 1 250, AtomicsStore 3 500],
      [AtomicsStore 2 375, AtomicsStore 4 625],
      [AtomicsStore 3 500, AtomicsStore 5 750]]"
  by (simp add: worker_traces_def cpu_worker_update_def updateSharedMemory_def
      updateLoop_unfold sample_rnds_def upt_conv_Cons)

lemma sample_interleaved: "interleaved (worker_traces sample_rnds 8 8) sample_stores"
  unfolding sample_worker_traces sample_stores_def
  apply (rule interleaved.advance [where i = 0], simp, simp, simp)
  apply (rule interleaved.advance [where i = 1], simp, simp, simp)
  apply (rule interleaved.advance [where i = 1], simp, simp, simp)
  apply (rule interleaved.advance [where i = 3], simp, simp, simp)
  apply (rule interleaved.advance [where i = 0], simp, simp, simp)
  apply (rule interleaved.advance [where i = 2], simp, simp, simp)
  apply (rule interleaved.advance [where i = 3], simp, simp, simp)
  apply (rule interleaved.advance [where i = 2], simp, simp, simp)
  apply (rule interleaved.finished, simp)
  done

theorem concurrent_updates_atomic_only_witness:
  "snd (updateSharedMemory (sample_rnds 1) 8 2 1) = [AtomicsStore 1 250, AtomicsStore 3 500] \<and>
   concurrentUpdates_trace sample_rnds 8 8 (sample_stores @ map IndexedRead [0..<10]) \<and>
   list_all no_plain_mutation (sample_stores @ map IndexedRead [0..<10]) \<and>
   filter is_mutation (sample_stores @ map IndexedRead [0..<10]) = sample_stores \<and>
   list_all is_atomic (filter is_mutation (sample_stores @ map IndexedRead [0..<10]))"
proof -
  have one: "snd (updateSharedMemory (sample_rnds 1) 8 2 1) =
               [AtomicsStore 1 250, AtomicsStore 3 500]"
    by (simp add: updateSharedMemory_def updateLoop_unfold sample_rnds_def)
  have tr: "concurrentUpdates_trace sample_rnds 8 8 (sample_stores @ map IndexedRead [0..<10])"
    unfolding concurrentUpdates_trace_def using sample_interleaved by blast
  have f: "filter is_mutation (sample_stores @ map IndexedRead [0..<10]) = sample_stores"
    by (simp add: sample_stores_def filter_empty_conv)
  from concurrent_updates_atomic_only [of "sample_rnds 1" 8 2 1 sample_rnds 8] tr
  have "list_all no_plain_mutation (sample_stores @ map IndexedRead [0..<10])"
    and "list_all is_atomic (filter is_mutation (sample_stores @ map IndexedRead [0..<10]))"
    by blast+
  with one tr f show ?thesis
    by blast
qed

section \<open>Proofs: the interruptible loop\<close>


















end
